theory Spec2Isabelle
  imports Main "HOL-Library.Sublist"
begin

section \<open>Strings\<close>

text \<open>
  Python strings are modelled as \<^typ>\<open>string\<close>, each \<^typ>\<open>char\<close> standing for one code
  point below 256 (Latin-1). On that range \<open>str.lower\<close>, \<open>str.isspace\<close> and the regular
  expression class \<open>\d\<close> are the following functions.
\<close>

definition lower_char :: "char \<Rightarrow> char" where
  "lower_char c =
     (let n = (of_char c :: nat)
      in if (65 \<le> n \<and> n \<le> 90) \<or> (192 \<le> n \<and> n \<le> 222 \<and> n \<noteq> 215)
         then char_of (n + 32) else c)"

definition lower :: "string \<Rightarrow> string" where
  "lower s = map lower_char s"

definition isspace :: "char \<Rightarrow> bool" where
  "isspace c =
     (let n = (of_char c :: nat)
      in (9 \<le> n \<and> n \<le> 13) \<or> (28 \<le> n \<and> n \<le> 32) \<or> n = 133 \<or> n = 160)"

definition strip :: "string \<Rightarrow> string" where
  "strip s = rev (dropWhile isspace (rev (dropWhile isspace s)))"

definition isdigit :: "char \<Rightarrow> bool" where
  "isdigit c = (let n = (of_char c :: nat) in 48 \<le> n \<and> n \<le> 57)"

section \<open>cfp2json.py: type inference for INI values\<close>

text \<open>
  The value \<open>infer_type\<close> returns is a bool, an int, a float or a str. The float is kept as
  the literal handed to \<open>float()\<close>; its rounding to a double is not modelled.
\<close>

datatype pyval = PBool bool | PInt int | PFloat string | PStr string

datatype pyerror = ValueError

text \<open>\<open>re.fullmatch(r'\d+', v)\<close>\<close>

definition fullmatch_digits :: "string \<Rightarrow> bool" where
  "fullmatch_digits v = (v \<noteq> [] \<and> list_all isdigit v)"

text \<open>\<open>re.fullmatch(r'\d+\.\d*', v)\<close>: the dot is no digit, so the split is forced.\<close>

definition fullmatch_digits_dot :: "string \<Rightarrow> bool" where
  "fullmatch_digits_dot v =
     (takeWhile isdigit v \<noteq> [] \<and>
      (case dropWhile isdigit v of
         [] \<Rightarrow> False
       | c # b \<Rightarrow> c = CHR ''.'' \<and> list_all isdigit b))"

text \<open>The number that a string of decimal digits denotes.\<close>

definition int_of_digits :: "string \<Rightarrow> int" where
  "int_of_digits v = foldl (\<lambda>a c. 10 * a + (int (of_char c) - 48)) 0 v"

text \<open>
  \<open>int(v)\<close> on a string of decimal digits. Python integers are unbounded, but the
  conversion raises \<open>ValueError\<close> when the string has more digits than the interpreter's
  limit \<open>sys.get_int_max_str_digits()\<close>: 4300 unless configured otherwise, and 0 for no
  limit (as in releases that do not have one). The limit is a parameter.
\<close>

definition int_conv :: "nat \<Rightarrow> string \<Rightarrow> pyerror + int" where
  "int_conv max_str_digits v =
     (if 0 < max_str_digits \<and> max_str_digits < length v then Inl ValueError
      else Inr (int_of_digits v))"

definition infer_type :: "nat \<Rightarrow> string \<Rightarrow> pyerror + pyval" where
  "infer_type max_str_digits val =
     (let v = strip val;
          lower = lower v
      in if lower \<in> set [''true'', ''yes'', ''on''] then Inr (PBool True)
         else if lower \<in> set [''false'', ''no'', ''off''] then Inr (PBool False)
         else if fullmatch_digits v then
           (case int_conv max_str_digits v of Inl e \<Rightarrow> Inl e | Inr i \<Rightarrow> Inr (PInt i))
         else if fullmatch_digits_dot v then Inr (PFloat v)
         else Inr (PStr v))"

subsection \<open>The rule in the words of the specification\<close>

definition true_word :: "string \<Rightarrow> bool" where
  "true_word s = (lower s \<in> set [''true'', ''yes'', ''on''])"

definition false_word :: "string \<Rightarrow> bool" where
  "false_word s = (lower s \<in> set [''false'', ''no'', ''off''])"

definition pure_digit :: "string \<Rightarrow> bool" where
  "pure_digit s = (s \<noteq> [] \<and> list_all isdigit s)"

text \<open>digit-dot-digit: digits, a dot, digits, with digits on both sides of the dot.\<close>

definition digit_dot_digit :: "string \<Rightarrow> bool" where
  "digit_dot_digit s =
     (takeWhile isdigit s \<noteq> [] \<and>
      (case dropWhile isdigit s of
         [] \<Rightarrow> False
       | c # b \<Rightarrow> c = CHR ''.'' \<and> b \<noteq> [] \<and> list_all isdigit b))"

text \<open>digits followed by a dot and nothing else, as in \<open>1.\<close>\<close>

definition digit_dot :: "string \<Rightarrow> bool" where
  "digit_dot s = (s \<noteq> [] \<and> last s = CHR ''.'' \<and> pure_digit (butlast s))"

section \<open>The file system and pathlib\<close>

text \<open>
  The scripts reach the file system through \<open>pathlib\<close> only. The file system is a finite
  tree that does not change during a scan. What a directory entry or a path may be:
  \<^item> a file;
  \<^item> a directory, with its entries in listing order; listing it either succeeds or raises
    an \<open>OSError\<close>, which the node records (\<open>None\<close>: the listing succeeds), and the entries
    of a directory that cannot be listed are still there;
  \<^item> a symbolic link to a file or a directory (cycles of links are outside the model);
  \<^item> something that \<open>os.stat\<close> cannot examine: the call raises the recorded \<open>OSError\<close>,
    one that \<open>exists()\<close> and \<open>is_dir()\<close> do not turn into \<open>False\<close>, such as
    \<open>PermissionError\<close> for a path beneath a directory without search permission or the
    error for an over-long name. What is really there is recorded too (\<open>None\<close>: nothing).
\<close>

datatype oserror = PermissionError | FileNotFoundError | NotADirectoryError | OtherOSError

datatype node =
    File
  | Dir "oserror option" "(string \<times> node) list"
  | Symlink node
  | Nostat oserror "node option"

text \<open>
  A \<open>pathlib.Path\<close> is its components together with what the file system holds under
  them (\<open>None\<close>: nothing). Printing always succeeds, and the call stack is as deep as the
  traversal needs.
\<close>

datatype Path = Path (parts: "string list") (target: "node option")

text \<open>What \<open>os.stat\<close>, which follows symbolic links, finds at a node, or the error it raises.\<close>

fun resolve :: "node \<Rightarrow> oserror + node" where
  "resolve File = Inr File"
| "resolve (Dir a es) = Inr (Dir a es)"
| "resolve (Symlink n) = resolve n"
| "resolve (Nostat e t) = Inl e"



text \<open>
  \<open>Path.exists()\<close> and \<open>Path.is_dir()\<close> return \<open>False\<close> where \<open>os.stat\<close> reports that
  nothing is there and raise every other \<open>OSError\<close>.
\<close>

definition exists :: "Path \<Rightarrow> oserror + bool" where
  "exists P =
     (case target P of
        None \<Rightarrow> Inr False
      | Some n \<Rightarrow> (case resolve n of Inl e \<Rightarrow> Inl e | Inr d \<Rightarrow> Inr True))"

definition is_dir :: "Path \<Rightarrow> oserror + bool" where
  "is_dir P =
     (case target P of
        None \<Rightarrow> Inr False
      | Some n \<Rightarrow>
          (case resolve n of
             Inl e \<Rightarrow> Inl e
           | Inr d \<Rightarrow> (case d of Dir a es \<Rightarrow> Inr True | _ \<Rightarrow> Inr False)))"

definition name :: "Path \<Rightarrow> string" where
  "name P = (if parts P = [] then [] else last (parts P))"

text \<open>\<open>s.rfind(c)\<close>: the index of the last occurrence of \<open>c\<close>, or \<open>-1\<close>.\<close>

definition rfind :: "string \<Rightarrow> char \<Rightarrow> int" where
  "rfind s c =
     (if c \<in> set s then int (length s) - 1 - int (length (takeWhile (\<lambda>x. x \<noteq> c) (rev s)))
      else - 1)"

text \<open>
  \<open>PurePath.stem\<close>: with \<open>i = name.rfind('.')\<close>, the stem is \<open>name[:i]\<close> when
  \<open>0 < i < len(name) - 1\<close> and the whole name otherwise.
\<close>

definition stem :: "Path \<Rightarrow> string" where
  "stem P =
     (let i = rfind (name P) CHR ''.''
      in if 0 < i \<and> i < int (length (name P)) - 1 then take (nat i) (name P) else name P)"

text \<open>
  Listing the directory at a path, through symbolic links. A directory that \<open>os.stat\<close>
  cannot examine cannot be listed either.
\<close>

definition scandir :: "Path \<Rightarrow> oserror + (string \<times> node) list" where
  "scandir P =
     (case target P of
        None \<Rightarrow> Inl FileNotFoundError
      | Some n \<Rightarrow>
          (case resolve n of
             Inl e \<Rightarrow> Inl e
           | Inr d \<Rightarrow>
               (case d of
                  Dir a es \<Rightarrow> (case a of None \<Rightarrow> Inr es | Some e \<Rightarrow> Inl e)
                | _ \<Rightarrow> Inl NotADirectoryError)))"

definition child :: "string list \<Rightarrow> string \<times> node \<Rightarrow> Path" where
  "child p e = Path (p @ [fst e]) (Some (snd e))"

text \<open>\<open>Path.iterdir()\<close> raises whatever the listing raises.\<close>

definition iterdir :: "Path \<Rightarrow> oserror + Path list" where
  "iterdir P =
     (case scandir P of Inl e \<Rightarrow> Inl e | Inr es \<Rightarrow> Inr (map (child (parts P)) es))"

text \<open>
  \<open>fnmatch.fnmatchcase(name, pat)\<close>, case-sensitive as on POSIX, for patterns made of
  literal characters, \<open>*\<close> and \<open>?\<close>. Bracket classes are left out: the scripts build the
  pattern as \<open>*\<close> followed by the extension, and an extension that passes
  \<open>validate_extension\<close> has none of \<open>*\<close>, \<open>?\<close>, \<open>[\<close>.
\<close>

fun fnmatch :: "string \<Rightarrow> string \<Rightarrow> bool" where
  "fnmatch [] [] = True"
| "fnmatch (c # cs) [] = False"
| "fnmatch [] (p # ps) = (p = CHR ''*'' \<and> fnmatch [] ps)"
| "fnmatch (c # cs) (p # ps) =
     (if p = CHR ''*'' then fnmatch (c # cs) ps \<or> fnmatch cs (p # ps)
      else if p = CHR ''?'' then fnmatch cs ps
      else p = c \<and> fnmatch cs ps)"

text \<open>
  What \<open>glob\<close> and \<open>rglob\<close> do when a listing fails depends on the CPython release: up to
  3.11 they absorb \<open>PermissionError\<close> only and let every other \<open>OSError\<close> through; from
  3.12 on they absorb every \<open>OSError\<close>. The scripts name no release, so the release is a
  parameter; in everything else the two behaviours are taken to agree.
\<close>

datatype pathlib = Until_3_11 | Since_3_12

fun absorbs :: "pathlib \<Rightarrow> oserror \<Rightarrow> bool" where
  "absorbs Until_3_11 e = (e = PermissionError)"
| "absorbs Since_3_12 e = True"

definition select :: "string \<Rightarrow> string list \<Rightarrow> (string \<times> node) list \<Rightarrow> Path list" where
  "select pat p es = map (child p) (filter (\<lambda>e. fnmatch (fst e) pat) es)"

text \<open>
  \<open>Path.glob(pat)\<close> for a pattern of one component. It first asks \<open>is_dir()\<close> of the
  path, outside any handler. Then it yields the entries of the directory whose name
  matches, whatever they are and without examining them. The listing is read in full
  before the first match is produced, so a failure leaves no partial result.
\<close>

definition glob :: "pathlib \<Rightarrow> Path \<Rightarrow> string \<Rightarrow> oserror + Path list" where
  "glob L P pat =
     (case is_dir P of
        Inl e \<Rightarrow> Inl e
      | Inr d \<Rightarrow>
          if \<not> d then Inr []
          else (case scandir P of
                  Inl e \<Rightarrow> if absorbs L e then Inr [] else Inl e
                | Inr es \<Rightarrow> Inr (select pat (parts P) es)))"

text \<open>Results in order; the first exception ends the whole iteration.\<close>

fun gather :: "(oserror + 'a list) list \<Rightarrow> oserror + 'a list" where
  "gather [] = Inr []"
| "gather (Inl e # rs) = Inl e"
| "gather (Inr xs # rs) = (case gather rs of Inl e \<Rightarrow> Inl e | Inr ys \<Rightarrow> Inr (xs @ ys))"

fun is_real_dir :: "node option \<Rightarrow> bool" where
  "is_real_dir (Some (Dir a es)) = True"
| "is_real_dir t = False"

text \<open>
  \<open>Path.rglob(pat)\<close> below a directory: the matches of every directory of the tree. It
  tells the directories among the entries from the listing itself, without following
  symbolic links, so it does not descend into a symbolic link, and an entry that
  \<open>os.stat\<close> cannot examine raises nothing by itself; when such an entry is a real
  directory its listing is attempted and fails. A directory whose listing fails with an
  absorbed error contributes nothing; any other error propagates out of the iteration.
  The list is in the order of CPython up to 3.11 (a directory before its
  subdirectories); later releases yield the same paths in another order.
\<close>

fun rglob_from :: "pathlib \<Rightarrow> string \<Rightarrow> string list \<Rightarrow> node \<Rightarrow> oserror + Path list" where
  "rglob_from L pat p File = Inr []"
| "rglob_from L pat p (Symlink n) = Inr []"
| "rglob_from L pat p (Nostat e t) =
     (if is_real_dir t \<and> \<not> absorbs L e then Inl e else Inr [])"
| "rglob_from L pat p (Dir (Some e) es) = (if absorbs L e then Inr [] else Inl e)"
| "rglob_from L pat p (Dir None es) =
     gather (Inr (select pat p es) # map (\<lambda>e. rglob_from L pat (p @ [fst e]) (snd e)) es)"

text \<open>
  At the path \<open>rglob\<close> is called on, a symbolic link is followed, and \<open>is_dir()\<close> is
  asked outside any handler, as in \<open>glob\<close>.
\<close>

definition rglob :: "pathlib \<Rightarrow> Path \<Rightarrow> string \<Rightarrow> oserror + Path list" where
  "rglob L P pat =
     (case target P of
        None \<Rightarrow> Inr []
      | Some n \<Rightarrow>
          (case resolve n of
             Inl e \<Rightarrow> Inl e
           | Inr d \<Rightarrow> rglob_from L pat (parts P) d))"

section \<open>filesindir_recursive.py\<close>

text \<open>
  Every call the script itself makes into the file system is recorded, in order.
\<close>

datatype fscall =
    Exists "string list"
  | Is_dir "string list"
  | Glob "string list" string
  | Rglob "string list" string
  | Iterdir "string list"

text \<open>
  \<open>collect_files\<close> is a closure over the list \<open>files\<close>; the state it works on is that
  list and the record of calls.
\<close>

type_synonym scan_state = "Path list \<times> fscall list"

definition files_extend :: "Path list \<Rightarrow> scan_state \<Rightarrow> scan_state" where
  "files_extend ms st = (fst st @ ms, snd st)"

definition called :: "fscall \<Rightarrow> scan_state \<Rightarrow> scan_state" where
  "called c st = (fst st, snd st @ [c])"

text \<open>
  The body of \<open>collect_files\<close> is one \<open>try\<close> block whose handler for
  \<open>(PermissionError, OSError)\<close> does nothing: an exception from \<open>glob\<close>, from \<open>iterdir\<close>
  or from \<open>subdir.is_dir()\<close> ends this call and leaves the state as it is by then. The
  loop over the entries carries a flag that says that \<open>is_dir()\<close> has raised: from then
  on the remaining entries are not looked at. An exception inside the recursive call is
  handled there and does not end the loop. The recursion goes one level down while
  \<open>current_depth < max_depth\<close>, which is also why it ends.
\<close>

function collect_files ::
  "pathlib \<Rightarrow> string \<Rightarrow> Path \<Rightarrow> int \<Rightarrow> int \<Rightarrow> scan_state \<Rightarrow> scan_state" where
  "collect_files L extension current_dir current_depth max_depth st =
     (case glob L current_dir (CHR ''*'' # extension) of
        Inl e \<Rightarrow> called (Glob (parts current_dir) (CHR ''*'' # extension)) st
      | Inr ms \<Rightarrow>
          if current_depth < max_depth then
            (case iterdir current_dir of
               Inl e \<Rightarrow>
                 called (Iterdir (parts current_dir))
                   (files_extend ms
                     (called (Glob (parts current_dir) (CHR ''*'' # extension)) st))
             | Inr subdirs \<Rightarrow>
                 fst (fold (\<lambda>subdir r.
                        if snd r then r
                        else (case is_dir subdir of
                                Inl e \<Rightarrow> (called (Is_dir (parts subdir)) (fst r), True)
                              | Inr d \<Rightarrow>
                                  if d
                                  then (collect_files L extension subdir (current_depth + 1)
                                          max_depth (called (Is_dir (parts subdir)) (fst r)),
                                        False)
                                  else (called (Is_dir (parts subdir)) (fst r), False)))
                   subdirs
                   (called (Iterdir (parts current_dir))
                      (files_extend ms
                        (called (Glob (parts current_dir) (CHR ''*'' # extension)) st)),
                    False)))
          else files_extend ms (called (Glob (parts current_dir) (CHR ''*'' # extension)) st))"
  by pat_completeness auto
termination
  by (relation "measure (\<lambda>(L, extension, current_dir, current_depth, max_depth, st).
        nat (max_depth - current_depth))") auto

declare collect_files.simps [simp del]

text \<open>The body of the loop over \<open>current_dir.iterdir()\<close>.\<close>

definition visit ::
  "pathlib \<Rightarrow> string \<Rightarrow> int \<Rightarrow> int \<Rightarrow> Path \<Rightarrow> scan_state \<times> bool \<Rightarrow> scan_state \<times> bool" where
  "visit L ext cur mx subdir r =
     (if snd r then r
      else (case is_dir subdir of
              Inl e \<Rightarrow> (called (Is_dir (parts subdir)) (fst r), True)
            | Inr d \<Rightarrow>
                if d
                then (collect_files L ext subdir (cur + 1) mx
                        (called (Is_dir (parts subdir)) (fst r)), False)
                else (called (Is_dir (parts subdir)) (fst r), False)))"

text \<open>
  The result is the returned list or the exception that leaves the function, with the
  calls made. Only the third branch has a handler.
\<close>

definition get_files_by_extension ::
  "pathlib \<Rightarrow> Path \<Rightarrow> string \<Rightarrow> int \<Rightarrow> (oserror + Path list) \<times> fscall list" where
  "get_files_by_extension L directory extension depth =
     (if depth = 0 then
        (glob L directory (CHR ''*'' # extension),
         [Glob (parts directory) (CHR ''*'' # extension)])
      else if depth = - 1 then
        (rglob L directory (CHR ''*'' # extension),
         [Rglob (parts directory) (CHR ''*'' # extension)])
      else
        (let st = collect_files L extension directory 0 depth ([], [])
         in (Inr (fst st), snd st)))"

subsection \<open>Validation and report\<close>

definition KNOWN_EXTENSIONS :: "string set" where
  "KNOWN_EXTENSIONS =
     {''.txt'', ''.docx'', ''.pdf'', ''.py'', ''.md'', ''.csv'', ''.xlsx'',
      ''.jpg'', ''.png'', ''.gif'', ''.mp4'', ''.mp3'', ''.zip'', ''.json''}"

text \<open>
  What the script prints, one value per \<open>print\<close>. The three skip messages and the header
  are kept structured (the messages start with a symbol outside Latin-1); the two lists
  are the printed text.
\<close>

datatype depth_text = Current_directory_only | Unlimited_recursion | Levels_deep int

datatype line =
    Skip_missing Path
  | Skip_not_a_directory Path
  | Skip_unknown_extension string
  | Report_header Path string depth_text
  | Text string

text \<open>
  What a call of \<open>process_and_print_files\<close> does: what it prints, the calls it makes into
  the file system, and the exception that reaches its caller, if any. It returns \<open>None\<close>
  on every path.
\<close>

record outcome =
  printed :: "line list"
  fs_calls :: "fscall list"
  raised :: "oserror option"

text \<open>
  The wrapper of \<open>validate_path\<close> has no handler: an exception from \<open>exists()\<close> or
  \<open>is_dir()\<close> leaves it before anything is printed.
\<close>

definition validate_path ::
  "(Path \<Rightarrow> string \<Rightarrow> int \<Rightarrow> outcome) \<Rightarrow> Path \<Rightarrow> string \<Rightarrow> int \<Rightarrow> outcome" where
  "validate_path func directory extension depth =
     (case exists directory of
        Inl e \<Rightarrow> \<lparr>printed = [], fs_calls = [Exists (parts directory)], raised = Some e\<rparr>
      | Inr ex \<Rightarrow>
          if \<not> ex then
            \<lparr>printed = [Skip_missing directory], fs_calls = [Exists (parts directory)],
             raised = None\<rparr>
          else
            (case is_dir directory of
               Inl e \<Rightarrow>
                 \<lparr>printed = [],
                  fs_calls = [Exists (parts directory), Is_dir (parts directory)],
                  raised = Some e\<rparr>
             | Inr d \<Rightarrow>
                 if \<not> d then
                   \<lparr>printed = [Skip_not_a_directory directory],
                    fs_calls = [Exists (parts directory), Is_dir (parts directory)],
                    raised = None\<rparr>
                 else
                   (let r = func directory extension depth
                    in r\<lparr>fs_calls :=
                           [Exists (parts directory), Is_dir (parts directory)] @ fs_calls r\<rparr>)))"

definition validate_extension ::
  "(Path \<Rightarrow> string \<Rightarrow> int \<Rightarrow> outcome) \<Rightarrow> Path \<Rightarrow> string \<Rightarrow> int \<Rightarrow> outcome" where
  "validate_extension func directory extension depth =
     (if lower extension \<notin> KNOWN_EXTENSIONS then
        \<lparr>printed = [Skip_unknown_extension extension], fs_calls = [], raised = None\<rparr>
      else func directory extension depth)"

fun join :: "string \<Rightarrow> string list \<Rightarrow> string" where
  "join sep [] = []"
| "join sep [x] = x"
| "join sep (x # y # ys) = x @ sep @ join sep (y # ys)"

definition print_list :: "string \<Rightarrow> string list \<Rightarrow> line" where
  "print_list label items =
     (if items \<noteq> [] then Text (label @ '':'' @ [CHR 0x0A] @ '' '' @ join '', '' items)
      else Text (label @ '':'' @ [CHR 0x0A] @ '' None found''))"

definition depth_desc :: "int \<Rightarrow> depth_text" where
  "depth_desc depth =
     (if depth = 0 then Current_directory_only
      else if depth = - 1 then Unlimited_recursion
      else Levels_deep depth)"

text \<open>The function under the two decorators.\<close>

definition process_and_print_files_body ::
  "pathlib \<Rightarrow> Path \<Rightarrow> string \<Rightarrow> int \<Rightarrow> outcome" where
  "process_and_print_files_body L directory extension depth =
     (case get_files_by_extension L directory extension depth of
        (Inl e, tr) \<Rightarrow> \<lparr>printed = [], fs_calls = tr, raised = Some e\<rparr>
      | (Inr files, tr) \<Rightarrow>
          \<lparr>printed =
             [Report_header directory extension (depth_desc depth),
              print_list ''files with extensions'' (map name files),
              print_list ''file stems'' (map stem files)],
           fs_calls = tr, raised = None\<rparr>)"

text \<open>\<open>@validate_path\<close> is the outer decorator, so its checks run first.\<close>

definition process_and_print_files :: "pathlib \<Rightarrow> Path \<Rightarrow> string \<Rightarrow> int \<Rightarrow> outcome" where
  "process_and_print_files L =
     validate_path (validate_extension (process_and_print_files_body L))"

section \<open>Notions of the specification\<close>

text \<open>
  \<open>entry_at root D q c\<close>: the entry \<open>c\<close> has the path \<open>q\<close> relative to \<open>root\<close> and lies
  \<open>D\<close> directories below it; a direct child of the root is at depth 0. Whether the
  directories on the way can be listed plays no part.
\<close>

inductive entry_at :: "node \<Rightarrow> nat \<Rightarrow> string list \<Rightarrow> node \<Rightarrow> bool" where
  here: "(k, c) \<in> set es \<Longrightarrow> entry_at (Dir a es) 0 [k] c"
| below: "(k, d) \<in> set es \<Longrightarrow> entry_at d D q c \<Longrightarrow> entry_at (Dir a es) (Suc D) (k # q) c"

text \<open>
  The entries that lie in directories reached from the root through real directories
  whose listing succeeds. Nothing is asked of the entry \<open>c\<close> itself.
\<close>

inductive visible_at :: "node \<Rightarrow> nat \<Rightarrow> string list \<Rightarrow> node \<Rightarrow> bool" where
  vhere: "(k, c) \<in> set es \<Longrightarrow> visible_at (Dir None es) 0 [k] c"
| vbelow: "(k, d) \<in> set es \<Longrightarrow> visible_at d D q c \<Longrightarrow>
      visible_at (Dir None es) (Suc D) (k # q) c"

text \<open>An entry on which \<open>is_dir()\<close> returns instead of raising.\<close>

definition examinable :: "string \<times> node \<Rightarrow> bool" where
  "examinable e = (case resolve (snd e) of Inl err \<Rightarrow> False | Inr d \<Rightarrow> True)"

text \<open>
  The entries that lie in directories the loop of \<open>collect_files\<close> reaches when the depth
  allows: each directory on the way, seen through symbolic links, can be listed, and the
  step down is through an entry listed before any entry on which \<open>is_dir()\<close> raises.
  Nothing is asked of the entry \<open>c\<close> itself.
\<close>

inductive walked_at :: "node \<Rightarrow> nat \<Rightarrow> string list \<Rightarrow> node \<Rightarrow> bool" where
  wdirect: "resolve n = Inr (Dir None es) \<Longrightarrow> (k, c) \<in> set es \<Longrightarrow> walked_at n 0 [k] c"
| wdeeper: "resolve n = Inr (Dir None es) \<Longrightarrow> (k, d) \<in> set (takeWhile examinable es) \<Longrightarrow>
      walked_at d D q c \<Longrightarrow> walked_at n (Suc D) (k # q) c"

text \<open>
  A tree of files and directories only in which no listing fails: no symbolic link and
  nothing that \<open>os.stat\<close> cannot examine.
\<close>

fun all_listable :: "node \<Rightarrow> bool" where
  "all_listable File = True"
| "all_listable (Dir a es) = (a = None \<and> list_all (\<lambda>e. all_listable (snd e)) es)"
| "all_listable (Symlink n) = False"
| "all_listable (Nostat e t) = False"

text \<open>Every listing failure that \<open>rglob\<close> meets in the tree is one that it absorbs.\<close>

fun absorbed :: "pathlib \<Rightarrow> node \<Rightarrow> bool" where
  "absorbed L File = True"
| "absorbed L (Symlink n) = True"
| "absorbed L (Nostat e t) = (if is_real_dir t then absorbs L e else True)"
| "absorbed L (Dir (Some e) es) = absorbs L e"
| "absorbed L (Dir None es) = list_all (\<lambda>e. absorbed L (snd e)) es"

text \<open>
  The entries below \<open>n\<close>, in the one sense and in the other, whose name ends with the
  extension and whose depth satisfies \<open>ok\<close>, as paths under \<open>p\<close>.
\<close>

definition found :: "node \<Rightarrow> string list \<Rightarrow> string \<Rightarrow> (nat \<Rightarrow> bool) \<Rightarrow> Path set" where
  "found n p ext ok =
     {Path (p @ q) (Some c) | q c D. visible_at n D q c \<and> suffix ext (last q) \<and> ok D}"

definition walked :: "node \<Rightarrow> string list \<Rightarrow> string \<Rightarrow> (nat \<Rightarrow> bool) \<Rightarrow> Path set" where
  "walked n p ext ok =
     {Path (p @ q) (Some c) | q c D. walked_at n D q c \<and> suffix ext (last q) \<and> ok D}"

definition plain :: "string \<Rightarrow> bool" where
  "plain ext = list_all (\<lambda>c. c \<notin> set ''*?['') ext"

definition recognized :: "string \<Rightarrow> bool" where
  "recognized extension = (lower extension \<in> KNOWN_EXTENSIONS)"

subsection \<open>Example trees\<close>

definition example_root :: node where
  "example_root =
     Dir None
       [(''a'', Dir None
           [(''b'', Dir None
               [(''c'', Dir None [(''file.txt'', File)]), (''two.txt'', File)])]),
        (''photos.txt'', Dir None []),
        (''.txt'', File),
        (''readme.md'', File)]"

definition denied_root :: node where
  "denied_root = Dir (Some OtherOSError) [(''match.txt'', File)]"

definition mixed_root :: node where
  "mixed_root =
     Dir None
       [(''ok'', Dir None [(''match.txt'', File)]),
        (''denied'', Dir (Some OtherOSError) [(''hidden.txt'', File)])]"

definition private_root :: node where
  "private_root =
     Dir None
       [(''ok'', Dir None [(''match.txt'', File)]),
        (''private'', Dir (Some PermissionError) [(''hidden.txt'', File)])]"

definition linked_root :: node where
  "linked_root = Dir None [(''link'', Symlink (Dir None [(''x.txt'', File)]))]"

definition stopped_root :: node where
  "stopped_root =
     Dir None
       [(''broken'', Nostat OtherOSError None),
        (''later'', Dir None [(''late.txt'', File)])]"

definition kinds_root :: node where
  "kinds_root =
     Dir None
       [(''photos.txt'', Dir None []),
        (''locked.txt'', Dir (Some PermissionError) []),
        (''link.txt'', Symlink (Dir None [])),
        (''broken.txt'', Nostat OtherOSError None),
        (''plain.txt'', File),
        (''readme.md'', File),
        (''notes'', Dir None [])]"

section \<open>Type inference: results\<close>

lemma takeWhile_isdigit_dot:
  "list_all isdigit a \<Longrightarrow> takeWhile isdigit (a @ CHR ''.'' # b) = a"
  by (induction a) (simp_all add: isdigit_def)

lemma dropWhile_isdigit_dot:
  "list_all isdigit a \<Longrightarrow> dropWhile isdigit (a @ CHR ''.'' # b) = CHR ''.'' # b"
  by (induction a) (simp_all add: isdigit_def)

lemma digit_dot_fullmatch: "digit_dot s \<Longrightarrow> fullmatch_digits_dot s"
proof -
  assume d: "digit_dot s"
  then have s: "s = butlast s @ CHR ''.'' # []"
    by (metis append_butlast_last_id digit_dot_def)
  from d have a: "list_all isdigit (butlast s)" and n: "butlast s \<noteq> []"
    by (simp_all add: digit_dot_def pure_digit_def)
  have "takeWhile isdigit s = butlast s" "dropWhile isdigit s = CHR ''.'' # []"
    using takeWhile_isdigit_dot [OF a, of "[]"] dropWhile_isdigit_dot [OF a, of "[]"] s
    by simp_all
  then show ?thesis using n by (simp add: fullmatch_digits_dot_def)
qed

lemma digit_dot_digit_fullmatch: "digit_dot_digit s \<Longrightarrow> fullmatch_digits_dot s"
  unfolding digit_dot_digit_def fullmatch_digits_dot_def
  by (cases "dropWhile isdigit s") simp_all

lemma fullmatch_digits_dot_cases:
  "fullmatch_digits_dot s \<Longrightarrow> digit_dot_digit s \<or> digit_dot s"
proof -
  assume f: "fullmatch_digits_dot s"
  then obtain b where t: "takeWhile isdigit s \<noteq> []"
    and r: "dropWhile isdigit s = CHR ''.'' # b" and b: "list_all isdigit b"
    by (auto simp: fullmatch_digits_dot_def split: list.splits)
  have s: "s = takeWhile isdigit s @ CHR ''.'' # b"
    using r takeWhile_dropWhile_id [of isdigit s] by simp
  show ?thesis
  proof (cases "b = []")
    case True
    have "list_all isdigit (takeWhile isdigit s)"
      by (simp add: list_all_iff) (meson set_takeWhileD)
    moreover have "butlast s = takeWhile isdigit s" "last s = CHR ''.''" "s \<noteq> []"
      using s True by (metis butlast_snoc, metis last_snoc, metis snoc_eq_iff_butlast)
    ultimately have "digit_dot s"
      using t by (simp add: digit_dot_def pure_digit_def)
    then show ?thesis ..
  next
    case False
    then have "digit_dot_digit s"
      using t r b by (simp add: digit_dot_digit_def)
    then show ?thesis ..
  qed
qed

lemma words_not_digits:
  "fullmatch_digits v \<Longrightarrow> \<not> true_word v \<and> \<not> false_word v"
  by (cases v)
     (auto simp: fullmatch_digits_def true_word_def false_word_def lower_def lower_char_def
        isdigit_def Let_def split: if_splits)

lemma words_not_digits_dot:
  "fullmatch_digits_dot v \<Longrightarrow> \<not> true_word v \<and> \<not> false_word v"
  by (cases v)
     (auto simp: fullmatch_digits_dot_def true_word_def false_word_def lower_def
        lower_char_def isdigit_def Let_def split: if_splits list.splits)

lemma digits_not_digits_dot: "fullmatch_digits v \<Longrightarrow> \<not> fullmatch_digits_dot v"
  by (simp add: fullmatch_digits_def fullmatch_digits_dot_def list_all_iff
      dropWhile_eq_Nil_conv [THEN iffD2])

lemma digits_result:
  "fullmatch_digits (strip val) \<Longrightarrow>
   infer_type m val =
     (case int_conv m (strip val) of Inl e \<Rightarrow> Inl e | Inr i \<Rightarrow> Inr (PInt i))"
  using words_not_digits [of "strip val"]
  by (auto simp: infer_type_def true_word_def false_word_def Let_def)

lemma strip_nines: "strip (replicate n CHR ''9'') = replicate n CHR ''9''"
  by (simp add: strip_def isspace_def dropWhile_replicate)

text \<open>
  C8, as amended. \<open>infer_type\<close> first strips the value of surrounding white space. On the
  stripped value \<open>v\<close>: the words true/yes/on give True and false/no/off give False, in any
  letter case; a non-empty string of digits gives its integer when it has no more digits
  than the interpreter's limit (or there is no limit) and raises \<open>ValueError\<close> when it
  has more; digits, a dot and then digits or nothing give a float; everything else gives
  \<open>v\<close> itself, the stripped string.
\<close>

theorem infer_type_rule:
  "(true_word (strip val) \<longrightarrow> infer_type m val = Inr (PBool True)) \<and>
   (false_word (strip val) \<longrightarrow> infer_type m val = Inr (PBool False)) \<and>
   (pure_digit (strip val) \<and> (m = 0 \<or> length (strip val) \<le> m) \<longrightarrow>
      infer_type m val = Inr (PInt (int_of_digits (strip val)))) \<and>
   (pure_digit (strip val) \<and> 0 < m \<and> m < length (strip val) \<longrightarrow>
      infer_type m val = Inl ValueError) \<and>
   (digit_dot_digit (strip val) \<or> digit_dot (strip val) \<longrightarrow>
      infer_type m val = Inr (PFloat (strip val))) \<and>
   (\<not> true_word (strip val) \<and> \<not> false_word (strip val) \<and> \<not> pure_digit (strip val) \<and>
    \<not> digit_dot_digit (strip val) \<and> \<not> digit_dot (strip val) \<longrightarrow>
      infer_type m val = Inr (PStr (strip val)))"
proof -
  let ?v = "strip val"
  have tf: "\<not> (true_word ?v \<and> false_word ?v)"
    by (auto simp: true_word_def false_word_def)
  have pd: "pure_digit ?v = fullmatch_digits ?v"
    by (simp add: pure_digit_def fullmatch_digits_def)
  have dd: "(digit_dot_digit ?v \<or> digit_dot ?v) = fullmatch_digits_dot ?v"
    using digit_dot_fullmatch digit_dot_digit_fullmatch fullmatch_digits_dot_cases by blast
  have c1: "true_word ?v \<longrightarrow> infer_type m val = Inr (PBool True)"
    by (simp add: infer_type_def true_word_def Let_def)
  have c2: "false_word ?v \<longrightarrow> infer_type m val = Inr (PBool False)"
    using tf by (auto simp: infer_type_def true_word_def false_word_def Let_def)
  have c3: "fullmatch_digits ?v \<and> (m = 0 \<or> length ?v \<le> m) \<longrightarrow>
      infer_type m val = Inr (PInt (int_of_digits ?v))"
    using digits_result [of val m] by (auto simp: int_conv_def)
  have c3': "fullmatch_digits ?v \<and> 0 < m \<and> m < length ?v \<longrightarrow> infer_type m val = Inl ValueError"
    using digits_result [of val m] by (auto simp: int_conv_def)
  have c4: "fullmatch_digits_dot ?v \<longrightarrow> infer_type m val = Inr (PFloat ?v)"
    using words_not_digits_dot [of ?v] digits_not_digits_dot [of ?v]
    by (auto simp: infer_type_def true_word_def false_word_def Let_def)
  have c5: "\<not> true_word ?v \<and> \<not> false_word ?v \<and> \<not> fullmatch_digits ?v \<and>
      \<not> fullmatch_digits_dot ?v \<longrightarrow> infer_type m val = Inr (PStr ?v)"
    by (auto simp: infer_type_def true_word_def false_word_def Let_def)
  show ?thesis
    using c1 c2 c3 c3' c4 c5 pd dd by blast
qed

theorem infer_type_rule_witness:
  "true_word (strip '' Yes '') \<and> infer_type 4300 '' Yes '' = Inr (PBool True) \<and>
   false_word (strip ''OFF'') \<and> infer_type 4300 ''OFF'' = Inr (PBool False) \<and>
   pure_digit (strip ''042'') \<and> infer_type 4300 ''042'' = Inr (PInt 42) \<and>
   pure_digit (strip (replicate 4301 CHR ''9'')) \<and> (0::nat) < 4300 \<and>
   4300 < length (strip (replicate 4301 CHR ''9'')) \<and>
   infer_type 4300 (replicate 4301 CHR ''9'') = Inl ValueError \<and>
   digit_dot_digit (strip ''3.14'') \<and> infer_type 4300 ''3.14'' = Inr (PFloat ''3.14'') \<and>
   digit_dot (strip ''1.'') \<and> infer_type 4300 ''1.'' = Inr (PFloat ''1.'') \<and>
   infer_type 4300 '' a b '' = Inr (PStr ''a b'')"
proof -
  have n: "pure_digit (strip (replicate 4301 CHR ''9''))"
    "4300 < length (strip (replicate 4301 CHR ''9''))"
    by (simp_all add: strip_nines pure_digit_def list_all_iff isdigit_def)
  then have "infer_type 4300 (replicate 4301 CHR ''9'') = Inl ValueError"
    using infer_type_rule [of "replicate 4301 CHR ''9''" 4300] by simp
  then show ?thesis
    using n infer_type_rule [of "'' Yes ''" 4300] infer_type_rule [of "''OFF''" 4300]
      infer_type_rule [of "''042''" 4300] infer_type_rule [of "''3.14''" 4300]
      infer_type_rule [of "''1.''" 4300] infer_type_rule [of "'' a b ''" 4300]
    by (simp add: true_word_def false_word_def pure_digit_def digit_dot_digit_def
        digit_dot_def strip_def isspace_def lower_def lower_char_def isdigit_def
        int_of_digits_def char_of_eq_iff)
qed

text \<open>
  C8 as stated fails: \<open>1.\<close> is none of the words, not a string of digits and has no digit
  after its dot, so the claim gives back the original string; the code returns a float.
  And a string of 4301 digits is a pure-digit string for which the code, under the
  default limit, raises instead of returning an integer.
\<close>

theorem infer_type_counterexample:
  "\<not> true_word ''1.'' \<and> \<not> false_word ''1.'' \<and> \<not> pure_digit ''1.'' \<and>
   \<not> digit_dot_digit ''1.'' \<and> infer_type 4300 ''1.'' = Inr (PFloat ''1.'') \<and>
   infer_type 4300 ''1.'' \<noteq> Inr (PStr ''1.'') \<and>
   pure_digit (replicate 4301 CHR ''9'') \<and>
   infer_type 4300 (replicate 4301 CHR ''9'') = Inl ValueError"
proof -
  have "fullmatch_digits (strip (replicate 4301 CHR ''9''))"
    by (simp add: strip_nines fullmatch_digits_def list_all_iff isdigit_def)
  from digits_result [OF this, of 4300]
  have "infer_type 4300 (replicate 4301 CHR ''9'') = Inl ValueError"
    by (simp add: int_conv_def strip_nines)
  moreover have "pure_digit (replicate 4301 CHR ''9'')"
    by (simp add: pure_digit_def list_all_iff isdigit_def)
  ultimately show ?thesis
    by (simp add: true_word_def false_word_def pure_digit_def digit_dot_digit_def
        infer_type_def fullmatch_digits_def fullmatch_digits_dot_def strip_def isspace_def
        lower_def lower_char_def isdigit_def char_of_eq_iff)
qed

section \<open>Matching\<close>

lemma fnmatch_plain: "plain e \<Longrightarrow> fnmatch s e = (s = e)"
  by (induction s e rule: fnmatch.induct) (auto simp: plain_def)

lemma fnmatch_star: "plain e \<Longrightarrow> fnmatch s (CHR ''*'' # e) = suffix e s"
proof (induction s)
  case Nil
  then show ?case using fnmatch_plain [of e "[]"] by auto
next
  case (Cons c cs)
  then show ?case using fnmatch_plain [of e "c # cs"] by (auto simp: suffix_Cons)
qed

lemma lower_char_special:
  "c \<in> set ''*?['' \<Longrightarrow> lower_char c = c"
  by (auto simp: lower_char_def)

lemma recognized_plain: "recognized e \<Longrightarrow> plain e"
proof -
  assume r: "recognized e"
  have "c \<notin> set ''*?[''" if c: "c \<in> set e" for c
  proof
    assume s: "c \<in> set ''*?[''"
    then have "lower_char c = c" by (rule lower_char_special)
    then have "c \<in> set (lower e)" using c by (force simp: lower_def)
    then show False using r s by (auto simp: recognized_def KNOWN_EXTENSIONS_def)
  qed
  then show ?thesis by (simp add: plain_def list_all_iff)
qed

section \<open>The bounded traversal\<close>

lemma resolve_cases:
  "resolve n = Inr d \<Longrightarrow> d = File \<or> (\<exists>a es. d = Dir a es)"
  by (induction n) auto

lemma fst_called [simp]: "fst (called c st) = fst st"
  by (simp add: called_def)

lemma fst_extend [simp]: "fst (files_extend ms st) = fst st @ ms"
  by (simp add: files_extend_def)

lemma select_suffix:
  "plain ext \<Longrightarrow> select (CHR ''*'' # ext) p es = map (child p) (filter (\<lambda>e. suffix ext (fst e)) es)"
  by (simp add: select_def fnmatch_star)

lemma glob_listable:
  "plain ext \<Longrightarrow> resolve n = Inr (Dir None es) \<Longrightarrow>
   glob L (Path p (Some n)) (CHR ''*'' # ext) =
     Inr (map (child p) (filter (\<lambda>e. suffix ext (fst e)) es))"
  by (simp add: glob_def is_dir_def scandir_def select_suffix)

lemma is_dir_child:
  "is_dir (child p e) =
     (case resolve (snd e) of
        Inl err \<Rightarrow> Inl err
      | Inr d \<Rightarrow> (case d of Dir a es \<Rightarrow> Inr True | _ \<Rightarrow> Inr False))"
  by (simp add: is_dir_def child_def)

lemma collect_files_listable:
  "plain ext \<Longrightarrow> resolve n = Inr (Dir None es) \<Longrightarrow>
   collect_files L ext (Path p (Some n)) cur mx st =
     (let s = files_extend (map (child p) (filter (\<lambda>e. suffix ext (fst e)) es))
                (called (Glob p (CHR ''*'' # ext)) st)
      in if cur < mx
         then fst (fold (visit L ext cur mx) (map (child p) es) (called (Iterdir p) s, False))
         else s)"
proof -
  assume pl: "plain ext" and r: "resolve n = Inr (Dir None es)"
  have v: "visit L ext cur mx =
     (\<lambda>subdir r.
        if snd r then r
        else (case is_dir subdir of
                Inl e \<Rightarrow> (called (Is_dir (parts subdir)) (fst r), True)
              | Inr d \<Rightarrow>
                  if d
                  then (collect_files L ext subdir (cur + 1) mx
                          (called (Is_dir (parts subdir)) (fst r)), False)
                  else (called (Is_dir (parts subdir)) (fst r), False)))"
    by (intro ext) (simp add: visit_def)
  show ?thesis
    unfolding v
    by (subst collect_files.simps)
       (simp add: glob_listable [OF pl r] iterdir_def scandir_def r)
qed

lemma collect_files_unlistable:
  assumes "\<And>es. resolve n \<noteq> Inr (Dir None es)"
  shows "fst (collect_files L ext (Path p (Some n)) cur mx st) = fst st"
proof (cases "resolve n")
  case (Inl e)
  then show ?thesis
    by (subst collect_files.simps) (simp add: glob_def is_dir_def)
next
  case (Inr d)
  from resolve_cases [OF Inr] show ?thesis
  proof
    assume "d = File"
    then show ?thesis
      using Inr
      by (subst collect_files.simps) (simp add: glob_def is_dir_def iterdir_def scandir_def)
  next
    assume "\<exists>a es. d = Dir a es"
    then obtain a es where d: "d = Dir a es" by blast
    with assms Inr obtain e where a: "a = Some e" by (cases a) auto
    show ?thesis
      using Inr d a
      by (subst collect_files.simps) (simp add: glob_def is_dir_def iterdir_def scandir_def)
  qed
qed

lemma collect_files_missing:
  "fst (collect_files L ext (Path p None) cur mx st) = fst st"
  by (subst collect_files.simps) (simp add: glob_def is_dir_def iterdir_def scandir_def)

lemma walked_at_listable:
  "walked_at n D q c \<Longrightarrow> \<exists>es. resolve n = Inr (Dir None es)"
  by (auto elim: walked_at.cases)

lemma walked_unlistable:
  "(\<And>es. resolve n \<noteq> Inr (Dir None es)) \<Longrightarrow> walked n p ext ok = {}"
  unfolding walked_def using walked_at_listable by blast

lemma walked_at_cases:
  assumes "walked_at n D q c" "resolve n = Inr (Dir None es)"
  obtains (direct) k where "(k, c) \<in> set es" "D = 0" "q = [k]"
  | (deeper) k d D' q' where "(k, d) \<in> set (takeWhile examinable es)" "walked_at d D' q' c"
      "D = Suc D'" "q = k # q'"
  using assms by (auto elim: walked_at.cases)

lemma walked_at_nonempty: "walked_at n D q c \<Longrightarrow> q \<noteq> []"
  by (auto elim: walked_at.cases)

lemma walked_listable:
  assumes r: "resolve n = Inr (Dir None es)"
  shows "walked n p ext ok =
     (if ok 0 then set (map (child p) (filter (\<lambda>e. suffix ext (fst e)) es)) else {}) \<union>
     (\<Union>e \<in> set (takeWhile examinable es). walked (snd e) (p @ [fst e]) ext (\<lambda>D. ok (Suc D)))"
  (is "?L = ?A \<union> ?B")
proof (intro set_eqI iffI)
  fix P assume "P \<in> ?L"
  then obtain q c D where P: "P = Path (p @ q) (Some c)"
    and v: "walked_at n D q c" and s: "suffix ext (last q)" and ok: "ok D"
    by (auto simp: walked_def)
  from v r show "P \<in> ?A \<union> ?B"
  proof (cases rule: walked_at_cases)
    case (direct k)
    then show ?thesis using P s ok by (force simp: child_def)
  next
    case (deeper k d D' q')
    then have "q' \<noteq> []" by (auto dest: walked_at_nonempty)
    then have "Path ((p @ [k]) @ q') (Some c) \<in> walked d (p @ [k]) ext (\<lambda>D. ok (Suc D))"
      using deeper s ok unfolding walked_def by auto
    then show ?thesis using deeper P by force
  qed
next
  fix P assume "P \<in> ?A \<union> ?B"
  then show "P \<in> ?L"
  proof
    assume "P \<in> ?A"
    then obtain k c where "ok 0" "(k, c) \<in> set es" "suffix ext k" "P = Path (p @ [k]) (Some c)"
      by (auto simp: child_def split: if_splits)
    then show ?thesis
      unfolding walked_def using walked_at.wdirect [OF r, of k c] by force
  next
    assume "P \<in> ?B"
    then obtain k d q c D where e: "(k, d) \<in> set (takeWhile examinable es)"
      and P: "P = Path ((p @ [k]) @ q) (Some c)"
      and v: "walked_at d D q c" and s: "suffix ext (last q)" and ok: "ok (Suc D)"
      by (auto simp: walked_def)
    from v have "q \<noteq> []" by (rule walked_at_nonempty)
    then have l: "last (k # q) = last q" by simp
    have "walked_at n (Suc D) (k # q) c" using walked_at.wdeeper [OF r e v] .
    moreover have "P = Path (p @ k # q) (Some c)" using P by simp
    ultimately show ?thesis
      unfolding walked_def using s ok l by auto
  qed
qed

lemma fold_visit_stopped: "fold (visit L ext cur mx) xs (s, True) = (s, True)"
  by (induction xs) (simp_all add: visit_def)

lemma walked_of_file:
  "resolve c = Inr File \<Longrightarrow> walked c p ext ok = {}"
  by (rule walked_unlistable) simp

lemma visit_child:
  "visit L ext cur mx (child p (k, c)) (s, False) =
     (case resolve c of
        Inl err \<Rightarrow> (called (Is_dir (p @ [k])) s, True)
      | Inr d \<Rightarrow>
          (case d of
             Dir a es \<Rightarrow>
               (collect_files L ext (Path (p @ [k]) (Some c)) (cur + 1) mx
                  (called (Is_dir (p @ [k])) s), False)
           | _ \<Rightarrow> (called (Is_dir (p @ [k])) s, False)))"
  by (simp add: visit_def is_dir_def child_def split: sum.splits node.splits)

lemma collect_files_walked:
  assumes pl: "plain ext"
  shows "set (fst (collect_files L ext (Path p (Some n)) cur mx st)) =
           set (fst st) \<union> walked n p ext (\<lambda>D. D = 0 \<or> cur + int D \<le> mx)"
proof (induction "nat (mx - cur)" arbitrary: cur n p st rule: less_induct)
  case less
  show ?case
  proof (cases "\<exists>es. resolve n = Inr (Dir None es)")
    case False
    then have u: "\<And>es. resolve n \<noteq> Inr (Dir None es)" by blast
    show ?thesis
      by (simp add: collect_files_unlistable [OF u] walked_unlistable [OF u])
  next
    case True
    then obtain es where r: "resolve n = Inr (Dir None es)" by blast
    let ?sel = "map (child p) (filter (\<lambda>e. suffix ext (fst e)) es)"
    have dec: "walked n p ext (\<lambda>D. D = 0 \<or> cur + int D \<le> mx) =
        set ?sel \<union> (\<Union>e \<in> set (takeWhile examinable es).
                      walked (snd e) (p @ [fst e]) ext (\<lambda>D. cur + 1 + int D \<le> mx))"
      by (subst walked_listable [OF r]) (simp add: add.commute add.left_commute)
    show ?thesis
    proof (cases "cur < mx")
      case False
      then have "walked (snd e) (p @ [fst e]) ext (\<lambda>D. cur + 1 + int D \<le> mx) = {}" for e
        by (auto simp: walked_def)
      then show ?thesis
        using False dec by (simp add: collect_files_listable [OF pl r] Let_def)
    next
      case True
      have same: "(\<lambda>D. D = 0 \<or> cur + 1 + int D \<le> mx) = (\<lambda>D. cur + 1 + int D \<le> mx)"
        using True by auto
      have sub: "set (fst (collect_files L ext (Path p' (Some c)) (cur + 1) mx s')) =
          set (fst s') \<union> walked c p' ext (\<lambda>D. cur + 1 + int D \<le> mx)" for p' c s'
      proof -
        have "nat (mx - (cur + 1)) < nat (mx - cur)" using True by simp
        from less.hyps [OF this] show ?thesis using same by simp
      qed
      have step: "set (fst (fst (fold (visit L ext cur mx) (map (child p) xs) (s, False)))) =
          set (fst s) \<union> (\<Union>e \<in> set (takeWhile examinable xs).
                            walked (snd e) (p @ [fst e]) ext (\<lambda>D. cur + 1 + int D \<le> mx))"
        for xs s
      proof (induction xs arbitrary: s)
        case Nil
        show ?case by simp
      next
        case (Cons x xs)
        obtain k c where x: "x = (k, c)" by (cases x)
        show ?case
        proof (cases "resolve c")
          case (Inl err)
          then have "\<not> examinable x" by (simp add: examinable_def x)
          moreover have "visit L ext cur mx (child p x) (s, False) =
              (called (Is_dir (p @ [k])) s, True)"
            using Inl by (simp add: visit_child x)
          ultimately show ?thesis
            by (simp add: fold_visit_stopped)
        next
          case (Inr d)
          then have ex: "examinable x" by (simp add: examinable_def x)
          from resolve_cases [OF Inr] show ?thesis
          proof
            assume "d = File"
            then have "visit L ext cur mx (child p x) (s, False) =
                (called (Is_dir (p @ [k])) s, False)"
              using Inr by (simp add: visit_child x)
            moreover have "walked c (p @ [k]) ext (\<lambda>D. cur + 1 + int D \<le> mx) = {}"
              using Inr \<open>d = File\<close> by (simp add: walked_of_file)
            ultimately show ?thesis
              using ex Cons.IH [of "called (Is_dir (p @ [k])) s"] x by simp
          next
            assume "\<exists>a es. d = Dir a es"
            then have "visit L ext cur mx (child p x) (s, False) =
                (collect_files L ext (Path (p @ [k]) (Some c)) (cur + 1) mx
                   (called (Is_dir (p @ [k])) s), False)"
              using Inr by (auto simp: visit_child x)
            then show ?thesis
              using ex x sub [of "p @ [k]" c "called (Is_dir (p @ [k])) s"]
                Cons.IH [of "collect_files L ext (Path (p @ [k]) (Some c)) (cur + 1) mx
                   (called (Is_dir (p @ [k])) s)"]
              by (simp add: Un_assoc)
          qed
        qed
      qed
      show ?thesis
        using True dec step [of es]
        by (simp add: collect_files_listable [OF pl r] Let_def Un_assoc)
    qed
  qed
qed

section \<open>The unlimited traversal\<close>

lemma visible_at_Dir:
  "visible_at n D q c \<Longrightarrow> \<exists>es. n = Dir None es"
  by (auto elim: visible_at.cases)

lemma found_not_listable:
  "(\<And>es. n \<noteq> Dir None es) \<Longrightarrow> found n p ext ok = {}"
  unfolding found_def using visible_at_Dir by blast

lemma visible_at_DirE:
  assumes "visible_at (Dir None es) D q c"
  obtains (direct) k where "(k, c) \<in> set es" "D = 0" "q = [k]"
  | (deeper) k d D' q' where "(k, d) \<in> set es" "visible_at d D' q' c" "D = Suc D'" "q = k # q'"
  using assms by (auto elim: visible_at.cases)

lemma visible_at_nonempty: "visible_at n D q c \<Longrightarrow> q \<noteq> []"
  by (auto elim: visible_at.cases)

lemma found_Dir:
  "found (Dir None es) p ext ok =
     (if ok 0 then set (map (child p) (filter (\<lambda>e. suffix ext (fst e)) es)) else {}) \<union>
     (\<Union>e \<in> set es. found (snd e) (p @ [fst e]) ext (\<lambda>D. ok (Suc D)))"
  (is "?L = ?A \<union> ?B")
proof (intro set_eqI iffI)
  fix P assume "P \<in> ?L"
  then obtain q c D where P: "P = Path (p @ q) (Some c)"
    and v: "visible_at (Dir None es) D q c" and s: "suffix ext (last q)" and ok: "ok D"
    by (auto simp: found_def)
  from v show "P \<in> ?A \<union> ?B"
  proof (cases rule: visible_at_DirE)
    case (direct k)
    then show ?thesis using P s ok by (force simp: child_def)
  next
    case (deeper k d D' q')
    then have "q' \<noteq> []" by (auto dest: visible_at_nonempty)
    then have "Path ((p @ [k]) @ q') (Some c) \<in> found d (p @ [k]) ext (\<lambda>D. ok (Suc D))"
      using deeper s ok unfolding found_def by auto
    then show ?thesis using deeper P by force
  qed
next
  fix P assume "P \<in> ?A \<union> ?B"
  then show "P \<in> ?L"
  proof
    assume "P \<in> ?A"
    then obtain k c where "ok 0" "(k, c) \<in> set es" "suffix ext k" "P = Path (p @ [k]) (Some c)"
      by (auto simp: child_def split: if_splits)
    then show ?thesis
      unfolding found_def using visible_at.vhere [of k c es] by force
  next
    assume "P \<in> ?B"
    then obtain k d q c D where e: "(k, d) \<in> set es" and P: "P = Path ((p @ [k]) @ q) (Some c)"
      and v: "visible_at d D q c" and s: "suffix ext (last q)" and ok: "ok (Suc D)"
      by (auto simp: found_def)
    from v have "q \<noteq> []" by (rule visible_at_nonempty)
    then have l: "last (k # q) = last q" by simp
    have "visible_at (Dir None es) (Suc D) (k # q) c" using visible_at.vbelow [OF e v] .
    moreover have "P = Path (p @ k # q) (Some c)" using P by simp
    ultimately show ?thesis
      unfolding found_def using s ok l by auto
  qed
qed

lemma gather_Inr:
  "gather rs = Inr xs \<Longrightarrow>
     (\<forall>r \<in> set rs. \<exists>ys. r = Inr ys) \<and> set xs = (\<Union>r \<in> set rs. set (projr r))"
proof (induction rs arbitrary: xs rule: gather.induct)
  case 1
  then show ?case by simp
next
  case (2 e rs)
  then show ?case by simp
next
  case (3 ys rs)
  then show ?case by (auto split: sum.splits)
qed

lemma gather_returns:
  "(\<forall>r \<in> set rs. \<exists>ys. r = Inr ys) \<Longrightarrow> \<exists>xs. gather rs = Inr xs"
  by (induction rs rule: gather.induct) auto

lemma rglob_from_found:
  assumes pl: "plain ext"
  shows "rglob_from L (CHR ''*'' # ext) p n = Inr xs \<Longrightarrow> set xs = found n p ext (\<lambda>D. True)"
proof (induction n arbitrary: p xs)
  case File
  then show ?case by (simp add: found_not_listable)
next
  case (Symlink n)
  then show ?case by (simp add: found_not_listable)
next
  case (Nostat e t)
  then show ?case by (simp add: found_not_listable split: if_splits)
next
  case (Dir a es)
  show ?case
  proof (cases a)
    case (Some e)
    then show ?thesis using Dir.prems by (simp add: found_not_listable split: if_splits)
  next
    case None
    let ?rs = "map (\<lambda>e. rglob_from L (CHR ''*'' # ext) (p @ [fst e]) (snd e)) es"
    from Dir.prems None
    have g: "gather (Inr (select (CHR ''*'' # ext) p es) # ?rs) = Inr xs" by simp
    note G = gather_Inr [OF g]
    have each: "set (projr (rglob_from L (CHR ''*'' # ext) (p @ [fst e]) (snd e))) =
        found (snd e) (p @ [fst e]) ext (\<lambda>D. True)" if e: "e \<in> set es" for e
    proof -
      from G e obtain ys where ys: "rglob_from L (CHR ''*'' # ext) (p @ [fst e]) (snd e) = Inr ys"
        by auto
      have "snd e \<in> Basic_BNFs.snds e" by (cases e) simp
      from Dir.IH [OF e this ys] ys show ?thesis by simp
    qed
    have "set xs = set (select (CHR ''*'' # ext) p es) \<union>
        (\<Union>e \<in> set es. found (snd e) (p @ [fst e]) ext (\<lambda>D. True))"
      using G each by simp
    then show ?thesis
      using None by (simp add: found_Dir select_suffix [OF pl])
  qed
qed

lemma rglob_from_returns:
  "absorbed L n \<Longrightarrow> \<exists>xs. rglob_from L pat p n = Inr xs"
proof (induction n arbitrary: p)
  case File
  then show ?case by simp
next
  case (Symlink n)
  then show ?case by simp
next
  case (Nostat e t)
  then show ?case by (simp split: if_splits)
next
  case (Dir a es)
  show ?case
  proof (cases a)
    case (Some e)
    then show ?thesis using Dir.prems by simp
  next
    case None
    have "\<exists>ys. rglob_from L pat (p @ [fst e]) (snd e) = Inr ys" if e: "e \<in> set es" for e
    proof -
      have "snd e \<in> Basic_BNFs.snds e" by (cases e) simp
      moreover have "absorbed L (snd e)" using Dir.prems None e by (simp add: list_all_iff)
      ultimately show ?thesis using Dir.IH [OF e] by blast
    qed
    then have "\<forall>r \<in> set (Inr (select pat p es) #
        map (\<lambda>e. rglob_from L pat (p @ [fst e]) (snd e)) es). \<exists>ys. r = Inr ys"
      by auto
    from gather_returns [OF this] show ?thesis using None by simp
  qed
qed

lemma absorbed_Since_3_12: "absorbed Since_3_12 n"
proof (induction n)
  case (Dir a es)
  have "absorbed Since_3_12 (snd e)" if e: "e \<in> set es" for e
  proof -
    have "snd e \<in> Basic_BNFs.snds e" by (cases e) simp
    then show ?thesis using Dir.IH [OF e] by simp
  qed
  then show ?case by (cases a) (simp_all add: list_all_iff)
qed simp_all

lemma all_listable_absorbed: "all_listable n \<Longrightarrow> absorbed L n"
proof (induction n)
  case (Dir a es)
  have "absorbed L (snd e)" if e: "e \<in> set es" for e
  proof -
    have "snd e \<in> Basic_BNFs.snds e" by (cases e) simp
    then show ?thesis using Dir.IH [OF e] Dir.prems e by (simp add: list_all_iff)
  qed
  then show ?case using Dir.prems by (simp add: list_all_iff)
qed simp_all

lemma all_listable_resolve: "all_listable n \<Longrightarrow> resolve n = Inr n"
  by (cases n) simp_all

lemma all_listable_examinable:
  "all_listable (Dir a es) \<Longrightarrow> takeWhile examinable es = es"
  by (auto simp: list_all_iff examinable_def all_listable_resolve intro!: takeWhile_eq_all_conv [THEN iffD2])

lemma visible_entry: "visible_at n D q c \<Longrightarrow> entry_at n D q c"
  by (induction rule: visible_at.induct) (auto intro: entry_at.intros)

lemma entry_visible: "entry_at n D q c \<Longrightarrow> all_listable n \<Longrightarrow> visible_at n D q c"
proof (induction rule: entry_at.induct)
  case (here k c es a)
  then show ?case by (auto intro: visible_at.intros)
next
  case (below k d es D q c a)
  then have "all_listable d" by (auto simp: list_all_iff)
  then show ?case using below by (auto intro: visible_at.intros)
qed

lemma entry_walked: "entry_at n D q c \<Longrightarrow> all_listable n \<Longrightarrow> walked_at n D q c"
proof (induction rule: entry_at.induct)
  case (here k c es a)
  then show ?case by (auto intro: walked_at.wdirect)
next
  case (below k d es D q c a)
  then have d: "all_listable d" by (auto simp: list_all_iff)
  have r: "resolve (Dir a es) = Inr (Dir None es)" using below.prems by simp
  have "takeWhile examinable es = es" by (rule all_listable_examinable [OF below.prems])
  with below.hyps(1) have "(k, d) \<in> set (takeWhile examinable es)" by (simp only:)
  from walked_at.wdeeper [OF r this below.IH [OF d]] show ?case .
qed

lemma walked_entry: "walked_at n D q c \<Longrightarrow> all_listable n \<Longrightarrow> entry_at n D q c"
proof (induction rule: walked_at.induct)
  case (wdirect n es k c)
  then have "n = Dir None es" using all_listable_resolve [of n] by simp
  then show ?case using wdirect by (auto intro: entry_at.intros)
next
  case (wdeeper n es k d D q c)
  then have n: "n = Dir None es" using all_listable_resolve [of n] by simp
  from wdeeper.hyps(2) have k: "(k, d) \<in> set es" by (rule set_takeWhileD [THEN conjunct1])
  then have "all_listable d" using wdeeper.prems n by (auto simp: list_all_iff)
  then show ?case using wdeeper.IH k n by (auto intro: entry_at.intros)
qed


lemma walked_at_length: "walked_at n D q c \<Longrightarrow> length q = Suc D"
  by (induction rule: walked_at.induct) auto

lemma visible_at_length: "visible_at n D q c \<Longrightarrow> length q = Suc D"
  by (induction rule: visible_at.induct) auto

lemma walked_sound:
  "P \<in> walked n p ext ok \<Longrightarrow> \<exists>D q c. walked_at n D q c \<and> P = Path (p @ q) (Some c)"
  unfolding walked_def by blast

lemma found_sound:
  "P \<in> found n p ext ok \<Longrightarrow> \<exists>D q c. visible_at n D q c \<and> P = Path (p @ q) (Some c)"
  unfolding found_def by blast

lemma walked_member:
  assumes "walked_at n D q c"
  shows "Path (p @ q) (Some c) \<in> walked n p ext ok \<longleftrightarrow> suffix ext (last q) \<and> ok D"
proof
  assume "Path (p @ q) (Some c) \<in> walked n p ext ok"
  then obtain D' where "walked_at n D' q c" "suffix ext (last q)" "ok D'"
    by (auto simp: walked_def)
  moreover from this assms have "D' = D" by (auto dest!: walked_at_length)
  ultimately show "suffix ext (last q) \<and> ok D" by simp
next
  assume "suffix ext (last q) \<and> ok D"
  then show "Path (p @ q) (Some c) \<in> walked n p ext ok"
    using assms by (auto simp: walked_def)
qed

lemma found_member:
  assumes "visible_at n D q c"
  shows "Path (p @ q) (Some c) \<in> found n p ext ok \<longleftrightarrow> suffix ext (last q) \<and> ok D"
proof
  assume "Path (p @ q) (Some c) \<in> found n p ext ok"
  then obtain D' where "visible_at n D' q c" "suffix ext (last q)" "ok D'"
    by (auto simp: found_def)
  moreover from this assms have "D' = D" by (auto dest!: visible_at_length)
  ultimately show "suffix ext (last q) \<and> ok D" by simp
next
  assume "suffix ext (last q) \<and> ok D"
  then show "Path (p @ q) (Some c) \<in> found n p ext ok"
    using assms by (auto simp: found_def)
qed

section \<open>The scan\<close>

lemma Path_collapse: "Path (parts P) (target P) = P"
  by (cases P) simp

text \<open>
  The bounded branch always returns. What it returns are the matches in the directories
  that the traversal reaches, down to the depth asked for: a directory whose listing
  fails, with any error and in either release, contributes nothing, and the directories
  listed before and after it are still scanned.
\<close>

lemma bounded_files:
  assumes "plain ext" "depth \<noteq> 0" "depth \<noteq> - 1" "target directory = Some root"
  shows "fst (get_files_by_extension L directory ext depth) =
           Inr (fst (collect_files L ext directory 0 depth ([], [])))"
    and "set (fst (collect_files L ext directory 0 depth ([], []))) =
           walked root (parts directory) ext (\<lambda>D. D = 0 \<or> int D \<le> depth)"
proof -
  show "fst (get_files_by_extension L directory ext depth) =
           Inr (fst (collect_files L ext directory 0 depth ([], [])))"
    using assms by (simp add: get_files_by_extension_def Let_def)
  have "directory = Path (parts directory) (Some root)"
    using assms(4) Path_collapse [of directory] by simp
  then show "set (fst (collect_files L ext directory 0 depth ([], []))) =
           walked root (parts directory) ext (\<lambda>D. D = 0 \<or> int D \<le> depth)"
    using collect_files_walked [OF assms(1), of L "parts directory" root 0 depth "([], [])"]
    by simp
qed

lemma example_two: "entry_at example_root 2 [''a'', ''b'', ''two.txt''] File"
  unfolding example_root_def numeral_2_eq_2
  by (rule entry_at.below entry_at.here | simp)+

lemma example_file: "entry_at example_root 3 [''a'', ''b'', ''c'', ''file.txt''] File"
  unfolding example_root_def numeral_3_eq_3
  by (rule entry_at.below entry_at.here | simp)+


lemma private_hidden: "entry_at private_root 1 [''private'', ''hidden.txt''] File"
  unfolding private_root_def One_nat_def
  by (rule entry_at.below entry_at.here | simp)+

lemma stopped_late: "entry_at stopped_root 1 [''later'', ''late.txt''] File"
  unfolding stopped_root_def One_nat_def
  by (rule entry_at.below entry_at.here | simp)+

lemma private_match_walked: "walked_at private_root 1 [''ok'', ''match.txt''] File"
  unfolding private_root_def One_nat_def
  by (rule walked_at.wdeeper [OF resolve.simps(2)] walked_at.wdirect [OF resolve.simps(2)]
      | simp add: examinable_def)+

lemma private_match_visible: "visible_at private_root 1 [''ok'', ''match.txt''] File"
  unfolding private_root_def One_nat_def
  by (rule visible_at.vbelow visible_at.vhere | simp)+

lemma kinds_walked:
  "walked_at kinds_root 0 [''photos.txt''] (Dir None [])"
  "walked_at kinds_root 0 [''locked.txt''] (Dir (Some PermissionError) [])"
  "walked_at kinds_root 0 [''link.txt''] (Symlink (Dir None []))"
  "walked_at kinds_root 0 [''broken.txt''] (Nostat OtherOSError None)"
  "walked_at kinds_root 0 [''plain.txt''] File"
  "walked_at kinds_root 0 [''readme.md''] File"
  "walked_at kinds_root 0 [''notes''] (Dir None [])"
  unfolding kinds_root_def
  by (rule walked_at.wdirect [OF resolve.simps(2)], simp)+

lemma kinds_visible:
  "visible_at kinds_root 0 [''photos.txt''] (Dir None [])"
  "visible_at kinds_root 0 [''locked.txt''] (Dir (Some PermissionError) [])"
  "visible_at kinds_root 0 [''readme.md''] File"
  unfolding kinds_root_def
  by (rule visible_at.vhere, simp)+

text \<open>
  C1, as amended. For a recognized extension and a depth \<open>N > 0\<close> the scan returns a list.
  Each member of it is an entry in a directory that the traversal reaches, and such an
  entry at nesting depth \<open>D\<close> is in the list if and only if its name ends with the
  extension, character for character, and \<open>D \<le> N\<close>; so an entry at depth \<open>N + 1\<close> is left
  out. The traversal reaches the directories that it can list on a way from the root on
  which it can list every directory, stepping down through entries that come before any
  entry on which \<open>is_dir()\<close> raises. In a tree of files and directories in which every
  listing succeeds, these are all entries: there the claim holds as it was stated.
\<close>

theorem bounded_depth_scan:
  assumes "0 < N" "recognized extension" "target directory = Some root"
  shows "\<exists>files. fst (get_files_by_extension L directory extension N) = Inr files \<and>
     (\<forall>P \<in> set files. \<exists>D q c. walked_at root D q c \<and> P = Path (parts directory @ q) (Some c)) \<and>
     (\<forall>D q c. walked_at root D q c \<longrightarrow>
        (Path (parts directory @ q) (Some c) \<in> set files \<longleftrightarrow>
           suffix extension (last q) \<and> int D \<le> N)) \<and>
     (all_listable root \<longrightarrow>
        (\<forall>D q c. entry_at root D q c \<longrightarrow>
           (Path (parts directory @ q) (Some c) \<in> set files \<longleftrightarrow>
              suffix extension (last q) \<and> int D \<le> N)))"
proof -
  let ?files = "fst (collect_files L extension directory 0 N ([], []))"
  have pl: "plain extension" using assms(2) by (rule recognized_plain)
  have N: "N \<noteq> 0" "N \<noteq> - 1" using assms(1) by simp_all
  note B = bounded_files [OF pl N assms(3), of L]
  have a: "\<exists>D q c. walked_at root D q c \<and> P = Path (parts directory @ q) (Some c)"
    if "P \<in> set ?files" for P
    using that unfolding B(2) by (rule walked_sound)
  have b: "Path (parts directory @ q) (Some c) \<in> set ?files \<longleftrightarrow>
      suffix extension (last q) \<and> int D \<le> N" if e: "walked_at root D q c" for D q c
    unfolding B(2) walked_member [OF e] using assms(1) by auto
  have c: "Path (parts directory @ q) (Some c) \<in> set ?files \<longleftrightarrow>
      suffix extension (last q) \<and> int D \<le> N"
    if l: "all_listable root" and e: "entry_at root D q c" for D q c
    using b [OF entry_walked [OF e l]] .
  show ?thesis
    apply (rule exI [of _ ?files])
    apply (intro conjI)
       apply (rule B(1))
      apply (intro ballI)
      apply (erule a)
     apply (intro allI impI)
     apply (erule b)
    apply (intro allI impI)
    apply (erule (1) c)
    done
qed

theorem bounded_depth_scan_witness:
  "(0::int) < 2 \<and> recognized ''.txt'' \<and> all_listable example_root \<and>
   (\<exists>files.
      fst (get_files_by_extension Until_3_11 (Path [''root''] (Some example_root)) ''.txt'' 2) =
        Inr files \<and>
      Path [''root'', ''a'', ''b'', ''two.txt''] (Some File) \<in> set files \<and>
      Path [''root'', ''a'', ''b'', ''c'', ''file.txt''] (Some File) \<notin> set files) \<and>
   walked_at private_root 1 [''ok'', ''match.txt''] File \<and>
   (\<exists>files.
      fst (get_files_by_extension Until_3_11 (Path [''root''] (Some private_root)) ''.txt'' 1) =
        Inr files \<and>
      Path [''root'', ''ok'', ''match.txt''] (Some File) \<in> set files)"
proof -
  have h: "(0::int) < 2" "recognized ''.txt''"
    "target (Path [''root''] (Some example_root)) = Some example_root"
    by code_simp+
  have l: "all_listable example_root" by code_simp
  from bounded_depth_scan [OF h, of Until_3_11] l obtain files where
    r: "fst (get_files_by_extension Until_3_11 (Path [''root''] (Some example_root)) ''.txt'' 2) =
        Inr files"
    and m: "\<And>D q c. entry_at example_root D q c \<Longrightarrow>
        (Path ([''root''] @ q) (Some c) \<in> set files \<longleftrightarrow> suffix ''.txt'' (last q) \<and> int D \<le> 2)"
    by auto
  have 1: "Path [''root'', ''a'', ''b'', ''two.txt''] (Some File) \<in> set files"
    using m [OF example_two] by (simp add: suffix_def)
  have 2: "Path [''root'', ''a'', ''b'', ''c'', ''file.txt''] (Some File) \<notin> set files"
    using m [OF example_file] by simp
  have h': "(0::int) < 1" "recognized ''.txt''"
    "target (Path [''root''] (Some private_root)) = Some private_root"
    by code_simp+
  from bounded_depth_scan [OF h', of Until_3_11] obtain files' where
    r': "fst (get_files_by_extension Until_3_11 (Path [''root''] (Some private_root)) ''.txt'' 1) =
        Inr files'"
    and m': "\<And>D q c. walked_at private_root D q c \<Longrightarrow>
        (Path ([''root''] @ q) (Some c) \<in> set files' \<longleftrightarrow> suffix ''.txt'' (last q) \<and> int D \<le> 1)"
    by auto
  have 3: "Path [''root'', ''ok'', ''match.txt''] (Some File) \<in> set files'"
    using m' [OF private_match_walked] by (simp add: suffix_def)
  show ?thesis using h l r 1 2 r' 3 private_match_walked by blast
qed

text \<open>
  C1 as stated fails where a directory cannot be listed: \<open>private/hidden.txt\<close> is an
  entry at depth 1 whose name matches, and the scan with depth 1 does not return it. It
  also fails for \<open>later/late.txt\<close>, which is listed after an entry on which \<open>is_dir()\<close>
  raises.
\<close>

theorem bounded_depth_scan_counterexample:
  "(0::int) < 1 \<and> recognized ''.txt'' \<and>
   is_dir (Path [''root''] (Some private_root)) = Inr True \<and>
   entry_at private_root 1 [''private'', ''hidden.txt''] File \<and>
   suffix ''.txt'' ''hidden.txt'' \<and> int 1 \<le> 1 \<and>
   fst (get_files_by_extension Until_3_11 (Path [''root''] (Some private_root)) ''.txt'' 1) =
     Inr [Path [''root'', ''ok'', ''match.txt''] (Some File)] \<and>
   Path [''root'', ''private'', ''hidden.txt''] (Some File) \<notin>
     set [Path [''root'', ''ok'', ''match.txt''] (Some File)] \<and>
   entry_at stopped_root 1 [''later'', ''late.txt''] File \<and>
   suffix ''.txt'' ''late.txt'' \<and>
   fst (get_files_by_extension Until_3_11 (Path [''root''] (Some stopped_root)) ''.txt'' 1) =
     Inr []"
proof -
  have "(0::int) < 1 \<and> recognized ''.txt'' \<and>
   is_dir (Path [''root''] (Some private_root)) = Inr True \<and>
   suffix ''.txt'' ''hidden.txt'' \<and> int 1 \<le> 1 \<and>
   fst (get_files_by_extension Until_3_11 (Path [''root''] (Some private_root)) ''.txt'' 1) =
     Inr [Path [''root'', ''ok'', ''match.txt''] (Some File)] \<and>
   Path [''root'', ''private'', ''hidden.txt''] (Some File) \<notin>
     set [Path [''root'', ''ok'', ''match.txt''] (Some File)] \<and>
   suffix ''.txt'' ''late.txt'' \<and>
   fst (get_files_by_extension Until_3_11 (Path [''root''] (Some stopped_root)) ''.txt'' 1) =
     Inr []"
    by code_simp
  then show ?thesis using private_hidden stopped_late by blast
qed



text \<open>
  C5, as amended. For depth -1 and a recognized extension, when every listing failure
  that \<open>rglob\<close> meets is one it absorbs, the scan returns a list. Each member of it is an
  entry in a directory reached from the root through real directories whose listing
  succeeds, and such an entry, at any depth, is in the list if and only if its name ends
  with the extension. In a tree of files and directories in which every listing succeeds,
  these are all entries: there the claim holds as it was stated.
\<close>

theorem unlimited_scan:
  assumes "recognized extension" "target directory = Some n" "resolve n = Inr root"
    "absorbed L root"
  shows "\<exists>files. fst (get_files_by_extension L directory extension (- 1)) = Inr files \<and>
     (\<forall>P \<in> set files. \<exists>D q c. visible_at root D q c \<and> P = Path (parts directory @ q) (Some c)) \<and>
     (\<forall>D q c. visible_at root D q c \<longrightarrow>
        (Path (parts directory @ q) (Some c) \<in> set files \<longleftrightarrow> suffix extension (last q))) \<and>
     (all_listable root \<longrightarrow>
        (\<forall>D q c. entry_at root D q c \<longrightarrow>
           (Path (parts directory @ q) (Some c) \<in> set files \<longleftrightarrow> suffix extension (last q))))"
proof -
  have pl: "plain extension" using assms(1) by (rule recognized_plain)
  obtain files where f: "rglob_from L (CHR ''*'' # extension) (parts directory) root = Inr files"
    using rglob_from_returns [OF assms(4)] by blast
  have r: "fst (get_files_by_extension L directory extension (- 1)) = Inr files"
    using f assms(2,3) by (simp add: get_files_by_extension_def rglob_def)
  have s: "set files = found root (parts directory) extension (\<lambda>D. True)"
    using rglob_from_found [OF pl f] .
  have a: "\<exists>D q c. visible_at root D q c \<and> P = Path (parts directory @ q) (Some c)"
    if "P \<in> set files" for P
    using that unfolding s by (rule found_sound)
  have b: "Path (parts directory @ q) (Some c) \<in> set files \<longleftrightarrow> suffix extension (last q)"
    if e: "visible_at root D q c" for D q c
    unfolding s found_member [OF e] by simp
  have c: "Path (parts directory @ q) (Some c) \<in> set files \<longleftrightarrow> suffix extension (last q)"
    if l: "all_listable root" and e: "entry_at root D q c" for D q c
    using b [OF entry_visible [OF e l]] .
  show ?thesis
    apply (rule exI [of _ files])
    apply (intro conjI)
       apply (rule r)
      apply (intro ballI)
      apply (erule a)
     apply (intro allI impI)
     apply (erule b)
    apply (intro allI impI)
    apply (erule (1) c)
    done
qed

theorem unlimited_scan_witness:
  "recognized ''.txt'' \<and> resolve example_root = Inr example_root \<and>
   absorbed Until_3_11 example_root \<and> all_listable example_root \<and>
   (\<exists>files.
      fst (get_files_by_extension Until_3_11 (Path [''root''] (Some example_root)) ''.txt'' (- 1)) =
        Inr files \<and>
      Path [''root'', ''a'', ''b'', ''c'', ''file.txt''] (Some File) \<in> set files) \<and>
   resolve private_root = Inr private_root \<and> absorbed Until_3_11 private_root \<and>
   visible_at private_root 1 [''ok'', ''match.txt''] File \<and>
   (\<exists>files.
      fst (get_files_by_extension Until_3_11 (Path [''root''] (Some private_root)) ''.txt'' (- 1)) =
        Inr files \<and>
      Path [''root'', ''ok'', ''match.txt''] (Some File) \<in> set files)"
proof -
  have h: "recognized ''.txt''"
    "target (Path [''root''] (Some example_root)) = Some example_root"
    "resolve example_root = Inr example_root" "absorbed Until_3_11 example_root"
    by code_simp+
  have l: "all_listable example_root" by code_simp
  from unlimited_scan [OF h] l obtain files where
    r: "fst (get_files_by_extension Until_3_11 (Path [''root''] (Some example_root)) ''.txt'' (- 1)) =
        Inr files"
    and m: "\<And>D q c. entry_at example_root D q c \<Longrightarrow>
        (Path ([''root''] @ q) (Some c) \<in> set files \<longleftrightarrow> suffix ''.txt'' (last q))"
    by auto
  have 1: "Path [''root'', ''a'', ''b'', ''c'', ''file.txt''] (Some File) \<in> set files"
    using m [OF example_file] by (simp add: suffix_def)
  have h': "recognized ''.txt''"
    "target (Path [''root''] (Some private_root)) = Some private_root"
    "resolve private_root = Inr private_root" "absorbed Until_3_11 private_root"
    by code_simp+
  from unlimited_scan [OF h'] obtain files' where
    r': "fst (get_files_by_extension Until_3_11 (Path [''root''] (Some private_root)) ''.txt'' (- 1)) =
        Inr files'"
    and m': "\<And>D q c. visible_at private_root D q c \<Longrightarrow>
        (Path ([''root''] @ q) (Some c) \<in> set files' \<longleftrightarrow> suffix ''.txt'' (last q))"
    by auto
  have 2: "Path [''root'', ''ok'', ''match.txt''] (Some File) \<in> set files'"
    using m' [OF private_match_visible] by (simp add: suffix_def)
  show ?thesis using h l r 1 h' r' 2 private_match_visible by blast
qed

text \<open>
  C5 as stated fails where a directory cannot be listed: \<open>private/hidden.txt\<close> lies
  beneath the root and its name matches, and the scan with depth -1 does not return it,
  in either release. Nor does it return \<open>link/x.txt\<close> behind a symbolic link to a
  directory, which the scan with depth 1 returns.
\<close>

theorem unlimited_scan_counterexample:
  "recognized ''.txt'' \<and>
   is_dir (Path [''root''] (Some private_root)) = Inr True \<and>
   entry_at private_root 1 [''private'', ''hidden.txt''] File \<and>
   suffix ''.txt'' ''hidden.txt'' \<and>
   fst (get_files_by_extension Until_3_11 (Path [''root''] (Some private_root)) ''.txt'' (- 1)) =
     Inr [Path [''root'', ''ok'', ''match.txt''] (Some File)] \<and>
   fst (get_files_by_extension Since_3_12 (Path [''root''] (Some private_root)) ''.txt'' (- 1)) =
     Inr [Path [''root'', ''ok'', ''match.txt''] (Some File)] \<and>
   Path [''root'', ''private'', ''hidden.txt''] (Some File) \<notin>
     set [Path [''root'', ''ok'', ''match.txt''] (Some File)] \<and>
   fst (get_files_by_extension Since_3_12 (Path [''root''] (Some linked_root)) ''.txt'' (- 1)) =
     Inr [] \<and>
   fst (get_files_by_extension Since_3_12 (Path [''root''] (Some linked_root)) ''.txt'' 1) =
     Inr [Path [''root'', ''link'', ''x.txt''] (Some File)]"
proof -
  have "recognized ''.txt'' \<and>
   is_dir (Path [''root''] (Some private_root)) = Inr True \<and>
   suffix ''.txt'' ''hidden.txt'' \<and>
   fst (get_files_by_extension Until_3_11 (Path [''root''] (Some private_root)) ''.txt'' (- 1)) =
     Inr [Path [''root'', ''ok'', ''match.txt''] (Some File)] \<and>
   fst (get_files_by_extension Since_3_12 (Path [''root''] (Some private_root)) ''.txt'' (- 1)) =
     Inr [Path [''root'', ''ok'', ''match.txt''] (Some File)] \<and>
   Path [''root'', ''private'', ''hidden.txt''] (Some File) \<notin>
     set [Path [''root'', ''ok'', ''match.txt''] (Some File)] \<and>
   fst (get_files_by_extension Since_3_12 (Path [''root''] (Some linked_root)) ''.txt'' (- 1)) =
     Inr [] \<and>
   fst (get_files_by_extension Since_3_12 (Path [''root''] (Some linked_root)) ''.txt'' 1) =
     Inr [Path [''root'', ''link'', ''x.txt''] (Some File)]"
    by code_simp
  then show ?thesis using private_hidden by blast
qed

text \<open>
  C9. In every depth mode, whether an entry that the mode examines is in the result is
  decided by its name alone: it is in the result if and only if its name ends with the
  extension. The entries a mode examines are those of the directories it reaches, within
  its depth; nothing is assumed about the entry \<open>c\<close> itself, which may be a file, a
  directory that can or cannot be listed, a symbolic link, or something that cannot be
  examined. No test on the kind of entry is applied.
\<close>

theorem match_by_name_alone:
  assumes "recognized extension" "target directory = Some n"
    and r: "fst (get_files_by_extension L directory extension depth) = Inr files"
  shows "(depth \<noteq> - 1 \<longrightarrow>
      (\<forall>D q c. walked_at n D q c \<and> (D = 0 \<or> int D \<le> depth) \<longrightarrow>
         (Path (parts directory @ q) (Some c) \<in> set files \<longleftrightarrow> suffix extension (last q)))) \<and>
     (depth = - 1 \<longrightarrow>
      (\<forall>root D q c. resolve n = Inr root \<and> visible_at root D q c \<longrightarrow>
         (Path (parts directory @ q) (Some c) \<in> set files \<longleftrightarrow> suffix extension (last q))))"
proof -
  have pl: "plain extension" using assms(1) by (rule recognized_plain)
  have dir: "directory = Path (parts directory) (Some n)"
    using assms(2) Path_collapse [of directory] by simp
  have zero: "Path (parts directory @ q) (Some c) \<in> set files \<longleftrightarrow> suffix extension (last q)"
    if d: "depth = 0" and w: "walked_at n D q c" and D: "D = 0 \<or> int D \<le> depth" for D q c
  proof -
    from d D have D0: "D = 0" by simp
    from w obtain es where rs: "resolve n = Inr (Dir None es)" by (auto dest: walked_at_listable)
    from w rs D0 obtain k where q: "q = [k]" and k: "(k, c) \<in> set es"
      by (cases rule: walked_at_cases) auto
    have "glob L directory (CHR ''*'' # extension) =
        Inr (map (child (parts directory)) (filter (\<lambda>e. suffix extension (fst e)) es))"
      using glob_listable [OF pl rs, of L "parts directory"] dir by simp
    then have "files = map (child (parts directory)) (filter (\<lambda>e. suffix extension (fst e)) es)"
      using r d by (simp add: get_files_by_extension_def)
    then show ?thesis using k q by (force simp: child_def)
  qed
  have bounded: "Path (parts directory @ q) (Some c) \<in> set files \<longleftrightarrow> suffix extension (last q)"
    if d: "depth \<noteq> 0" "depth \<noteq> - 1" and w: "walked_at n D q c"
      and D: "D = 0 \<or> int D \<le> depth" for D q c
  proof -
    note B = bounded_files [OF pl d assms(2), of L]
    from r B(1) have "files = fst (collect_files L extension directory 0 depth ([], []))" by simp
    then show ?thesis
      unfolding B(2) [symmetric] using B(2) walked_member [OF w] D by simp
  qed
  have unlimited: "Path (parts directory @ q) (Some c) \<in> set files \<longleftrightarrow> suffix extension (last q)"
    if d: "depth = - 1" and rs: "resolve n = Inr root" and v: "visible_at root D q c"
    for root D q c
  proof -
    have "rglob_from L (CHR ''*'' # extension) (parts directory) root = Inr files"
      using r d rs assms(2) by (simp add: get_files_by_extension_def rglob_def)
    from rglob_from_found [OF pl this] show ?thesis
      using found_member [OF v] by simp
  qed
  show ?thesis
    using zero bounded unlimited by blast
qed

theorem match_by_name_alone_witness:
  "recognized ''.txt'' \<and>
   walked_at kinds_root 0 [''photos.txt''] (Dir None []) \<and>
   walked_at kinds_root 0 [''locked.txt''] (Dir (Some PermissionError) []) \<and>
   walked_at kinds_root 0 [''readme.md''] File \<and>
   walked_at kinds_root 0 [''notes''] (Dir None []) \<and>
   (\<exists>files.
      fst (get_files_by_extension Until_3_11 (Path [''root''] (Some kinds_root)) ''.txt'' 0) =
        Inr files \<and>
      Path [''root'', ''photos.txt''] (Some (Dir None [])) \<in> set files \<and>
      Path [''root'', ''locked.txt''] (Some (Dir (Some PermissionError) [])) \<in> set files \<and>
      Path [''root'', ''readme.md''] (Some File) \<notin> set files \<and>
      Path [''root'', ''notes''] (Some (Dir None [])) \<notin> set files) \<and>
   resolve kinds_root = Inr kinds_root \<and>
   visible_at kinds_root 0 [''photos.txt''] (Dir None []) \<and>
   visible_at kinds_root 0 [''readme.md''] File \<and>
   (\<exists>files.
      fst (get_files_by_extension Until_3_11 (Path [''root''] (Some kinds_root)) ''.txt'' (- 1)) =
        Inr files \<and>
      Path [''root'', ''photos.txt''] (Some (Dir None [])) \<in> set files \<and>
      Path [''root'', ''readme.md''] (Some File) \<notin> set files)"
proof -
  have h: "recognized ''.txt''" "target (Path [''root''] (Some kinds_root)) = Some kinds_root"
    by code_simp+
  have rs: "resolve kinds_root = Inr kinds_root" by code_simp
  have "fst (get_files_by_extension Until_3_11 (Path [''root''] (Some kinds_root)) ''.txt'' 0) =
     Inr [Path [''root'', ''photos.txt''] (Some (Dir None [])),
          Path [''root'', ''locked.txt''] (Some (Dir (Some PermissionError) [])),
          Path [''root'', ''link.txt''] (Some (Symlink (Dir None []))),
          Path [''root'', ''broken.txt''] (Some (Nostat OtherOSError None)),
          Path [''root'', ''plain.txt''] (Some File)]"
    by code_simp
  then obtain files where
    z: "fst (get_files_by_extension Until_3_11 (Path [''root''] (Some kinds_root)) ''.txt'' 0) =
      Inr files" ..
  from match_by_name_alone [OF h z]
  have m: "\<And>D q c. walked_at kinds_root D q c \<Longrightarrow> D = 0 \<Longrightarrow>
      (Path ([''root''] @ q) (Some c) \<in> set files \<longleftrightarrow> suffix ''.txt'' (last q))"
    by simp
  have 1: "Path [''root'', ''photos.txt''] (Some (Dir None [])) \<in> set files"
    using m [OF kinds_walked(1)] by (simp add: suffix_def)
  have 2: "Path [''root'', ''locked.txt''] (Some (Dir (Some PermissionError) [])) \<in> set files"
    using m [OF kinds_walked(2)] by (simp add: suffix_def)
  have 3: "Path [''root'', ''readme.md''] (Some File) \<notin> set files"
    using m [OF kinds_walked(6)] by (simp add: suffix_def)
  have 4: "Path [''root'', ''notes''] (Some (Dir None [])) \<notin> set files"
    using m [OF kinds_walked(7)] by (simp add: suffix_def)
  have "fst (get_files_by_extension Until_3_11 (Path [''root''] (Some kinds_root)) ''.txt'' (- 1)) =
     Inr [Path [''root'', ''photos.txt''] (Some (Dir None [])),
          Path [''root'', ''locked.txt''] (Some (Dir (Some PermissionError) [])),
          Path [''root'', ''link.txt''] (Some (Symlink (Dir None []))),
          Path [''root'', ''broken.txt''] (Some (Nostat OtherOSError None)),
          Path [''root'', ''plain.txt''] (Some File)]"
    by code_simp
  then obtain files' where
    z': "fst (get_files_by_extension Until_3_11 (Path [''root''] (Some kinds_root)) ''.txt'' (- 1)) =
      Inr files'" ..
  from match_by_name_alone [OF h z'] rs
  have m': "\<And>D q c. visible_at kinds_root D q c \<Longrightarrow>
      (Path ([''root''] @ q) (Some c) \<in> set files' \<longleftrightarrow> suffix ''.txt'' (last q))"
    by simp
  have 5: "Path [''root'', ''photos.txt''] (Some (Dir None [])) \<in> set files'"
    using m' [OF kinds_visible(1)] by (simp add: suffix_def)
  have 6: "Path [''root'', ''readme.md''] (Some File) \<notin> set files'"
    using m' [OF kinds_visible(3)] by (simp add: suffix_def)
  show ?thesis
    using h(1) rs z 1 2 3 4 z' 5 6 kinds_walked(1,2,6,7) kinds_visible(1,3) by blast
qed

text \<open>
  C10, as amended. For a depth below -1 the scan makes one call into the file system,
  the \<open>glob\<close> of the root, the same call the scan with depth 0 makes; it lists no
  directory for subdirectories and tests no entry. Whenever the scan with depth 0 returns
  a list, this scan returns the same list. It never raises: where the scan with depth 0
  raises, this one returns the empty list.
\<close>

theorem negative_depth_like_zero:
  assumes "depth < - 1"
  shows "snd (get_files_by_extension L directory extension depth) =
           [Glob (parts directory) (CHR ''*'' # extension)] \<and>
         snd (get_files_by_extension L directory extension depth) =
           snd (get_files_by_extension L directory extension 0) \<and>
         (\<forall>files. fst (get_files_by_extension L directory extension 0) = Inr files \<longrightarrow>
            fst (get_files_by_extension L directory extension depth) = Inr files) \<and>
         (\<forall>e. fst (get_files_by_extension L directory extension 0) = Inl e \<longrightarrow>
            fst (get_files_by_extension L directory extension depth) = Inr [])"
proof -
  have c: "collect_files L extension directory 0 depth ([], []) =
      (case glob L directory (CHR ''*'' # extension) of
         Inl e \<Rightarrow> ([], [Glob (parts directory) (CHR ''*'' # extension)])
       | Inr ms \<Rightarrow> (ms, [Glob (parts directory) (CHR ''*'' # extension)]))"
    using assms
    by (subst collect_files.simps) (simp add: called_def files_extend_def split: sum.splits)
  have g: "get_files_by_extension L directory extension depth =
      (Inr (fst (collect_files L extension directory 0 depth ([], []))),
       snd (collect_files L extension directory 0 depth ([], [])))"
    using assms by (simp add: get_files_by_extension_def Let_def)
  show ?thesis
    unfolding g c by (simp add: get_files_by_extension_def split: sum.splits)
qed

theorem negative_depth_like_zero_witness:
  "(- 2 :: int) < - 1 \<and>
   get_files_by_extension Until_3_11 (Path [''root''] (Some example_root)) ''.txt'' (- 2) =
     (Inr [Path [''root'', ''photos.txt''] (Some (Dir None [])),
           Path [''root'', ''.txt''] (Some File)],
      [Glob [''root''] ''*.txt''])"
proof -
  have h: "(- 2 :: int) < - 1" by simp
  have z: "fst (get_files_by_extension Until_3_11 (Path [''root''] (Some example_root)) ''.txt'' 0) =
     Inr [Path [''root'', ''photos.txt''] (Some (Dir None [])),
          Path [''root'', ''.txt''] (Some File)]"
    by code_simp
  from negative_depth_like_zero [OF h, of Until_3_11 "Path [''root''] (Some example_root)" "''.txt''"] z
  have "fst (get_files_by_extension Until_3_11 (Path [''root''] (Some example_root)) ''.txt'' (- 2)) =
     Inr [Path [''root'', ''photos.txt''] (Some (Dir None [])),
          Path [''root'', ''.txt''] (Some File)]"
    and "snd (get_files_by_extension Until_3_11 (Path [''root''] (Some example_root)) ''.txt'' (- 2)) =
     [Glob [''root''] ''*.txt'']"
    by simp_all
  then show ?thesis using h by (simp add: prod_eq_iff)
qed

text \<open>
  C10 as stated fails where the scan with depth 0 returns nothing to compare with: for a
  root whose listing raises an error that \<open>glob\<close> does not absorb, depth -2 gives the
  empty list and depth 0 gives the exception.
\<close>

theorem negative_depth_counterexample:
  "(- 2 :: int) < - 1 \<and>
   fst (get_files_by_extension Until_3_11 (Path [''root''] (Some denied_root)) ''.txt'' (- 2)) =
     Inr [] \<and>
   fst (get_files_by_extension Until_3_11 (Path [''root''] (Some denied_root)) ''.txt'' 0) =
     Inl OtherOSError"
  by code_simp

section \<open>Names and stems\<close>

lemma lower_char_dot: "lower_char c = CHR ''.'' \<longleftrightarrow> c = CHR ''.''"
  by (auto simp: lower_char_def Let_def char_of_eq_iff take_bit_eq_mod split: if_splits)

lemma recognized_shape:
  assumes "recognized ext"
  obtains rest where "ext = CHR ''.'' # rest" "rest \<noteq> []" "CHR ''.'' \<notin> set rest"
proof -
  from assms have k: "map lower_char ext \<in> KNOWN_EXTENSIONS"
    by (simp add: recognized_def lower_def)
  then obtain c rest where ext: "ext = c # rest"
    by (cases ext) (auto simp: KNOWN_EXTENSIONS_def)
  from k ext have c: "lower_char c = CHR ''.''" and r: "map lower_char rest \<noteq> []"
    and n: "CHR ''.'' \<notin> set (map lower_char rest)"
    by (auto simp: KNOWN_EXTENSIONS_def)
  from c have "c = CHR ''.''" by (simp add: lower_char_dot)
  moreover from r have "rest \<noteq> []" by simp
  moreover have "CHR ''.'' \<notin> set rest"
  proof
    assume "CHR ''.'' \<in> set rest"
    then have "lower_char CHR ''.'' \<in> set (map lower_char rest)" by simp
    then show False using n lower_char_dot [of "CHR ''.''"] by simp
  qed
  ultimately show ?thesis using ext that by blast
qed

lemma rfind_last_dot:
  "CHR ''.'' \<notin> set rest \<Longrightarrow> rfind (pre @ CHR ''.'' # rest) CHR ''.'' = int (length pre)"
proof -
  assume n: "CHR ''.'' \<notin> set rest"
  have "takeWhile (\<lambda>x. x \<noteq> CHR ''.'') (rev rest @ CHR ''.'' # rev pre) = rev rest"
    using n by (induction rest rule: rev_induct) auto
  then show ?thesis by (simp add: rfind_def)
qed

lemma stem_recognized:
  assumes "recognized ext" "name P = pre @ ext" "pre \<noteq> []"
  shows "stem P = pre"
proof -
  from assms(1) obtain rest where ext: "ext = CHR ''.'' # rest" and r: "rest \<noteq> []"
    and n: "CHR ''.'' \<notin> set rest"
    by (rule recognized_shape)
  have "rfind (name P) CHR ''.'' = int (length pre)"
    using rfind_last_dot [OF n, of pre] assms(2) ext by simp
  then show ?thesis
    using assms(2,3) ext r by (simp add: stem_def Let_def)
qed

lemma name_child [simp]: "name (child p e) = fst e"
  by (simp add: name_def child_def)

lemma found_name: "P \<in> found n p ext ok \<Longrightarrow> suffix ext (name P)"
proof -
  assume "P \<in> found n p ext ok"
  then obtain q c D where P: "P = Path (p @ q) (Some c)" and v: "visible_at n D q c"
    and s: "suffix ext (last q)"
    by (auto simp: found_def)
  from v have "q \<noteq> []" by (rule visible_at_nonempty)
  then show ?thesis using P s by (simp add: name_def)
qed

lemma walked_name: "P \<in> walked n p ext ok \<Longrightarrow> suffix ext (name P)"
proof -
  assume "P \<in> walked n p ext ok"
  then obtain q c D where P: "P = Path (p @ q) (Some c)" and v: "walked_at n D q c"
    and s: "suffix ext (last q)"
    by (auto simp: walked_def)
  from v have "q \<noteq> []" by (rule walked_at_nonempty)
  then show ?thesis using P s by (simp add: name_def)
qed

lemma glob_name:
  "plain ext \<Longrightarrow> glob L P (CHR ''*'' # ext) = Inr files \<Longrightarrow> Q \<in> set files \<Longrightarrow>
     suffix ext (name Q)"
  by (auto simp: glob_def select_suffix split: if_splits sum.splits)

lemma match_names:
  assumes pl: "plain ext"
    and r: "fst (get_files_by_extension L directory ext depth) = Inr files"
    and P: "P \<in> set files"
  shows "suffix ext (name P)"
proof -
  have dir: "directory = Path (parts directory) (target directory)"
    by (simp add: Path_collapse)
  consider (zero) "depth = 0" | (all) "depth = - 1" | (bounded) "depth \<noteq> 0" "depth \<noteq> - 1"
    by blast
  then show ?thesis
  proof cases
    case zero
    then have "glob L directory (CHR ''*'' # ext) = Inr files"
      using r by (simp add: get_files_by_extension_def)
    then show ?thesis using glob_name [OF pl _ P] by blast
  next
    case all
    then have g: "rglob L directory (CHR ''*'' # ext) = Inr files"
      using r by (simp add: get_files_by_extension_def)
    show ?thesis
    proof (cases "target directory")
      case None
      then show ?thesis using g P by (simp add: rglob_def)
    next
      case (Some n)
      then obtain root where "rglob_from L (CHR ''*'' # ext) (parts directory) root = Inr files"
        using g by (auto simp: rglob_def split: sum.splits)
      from rglob_from_found [OF pl this] P show ?thesis by (auto intro: found_name)
    qed
  next
    case bounded
    show ?thesis
    proof (cases "target directory")
      case None
      then have "fst (collect_files L ext directory 0 depth ([], [])) = []"
        using collect_files_missing [of L ext "parts directory" 0 depth "([], [])"] dir by simp
      then show ?thesis
        using r P bounded by (simp add: get_files_by_extension_def Let_def)
    next
      case (Some root)
      note B = bounded_files [OF pl bounded Some, of L]
      from r B(1) have "files = fst (collect_files L ext directory 0 depth ([], []))" by simp
      then show ?thesis using P B(2) by (auto intro: walked_name)
    qed
  qed
qed

text \<open>
  C7, as amended. For a recognized extension, the name of every match ends with the
  extension, and when the name is longer than the extension the stem is the name with
  the extension removed. Computing names and stems makes no call into the file system:
  the calls of the report are those of the scan.
\<close>

theorem stem_of_match:
  assumes "recognized extension"
    and "fst (get_files_by_extension L directory extension depth) = Inr files"
    and "P \<in> set files"
  shows "suffix extension (name P) \<and>
         (name P \<noteq> extension \<longrightarrow> name P = stem P @ extension) \<and>
         fs_calls (process_and_print_files_body L directory extension depth) =
           snd (get_files_by_extension L directory extension depth)"
proof -
  have s: "suffix extension (name P)"
    using match_names [OF recognized_plain [OF assms(1)] assms(2,3)] .
  then obtain pre where n: "name P = pre @ extension" by (auto simp: suffix_def)
  have "name P = stem P @ extension" if "name P \<noteq> extension"
  proof -
    from that n have "pre \<noteq> []" by auto
    from stem_recognized [OF assms(1) n this] n show ?thesis by simp
  qed
  moreover have "fs_calls (process_and_print_files_body L directory extension depth) =
           snd (get_files_by_extension L directory extension depth)"
    by (simp add: process_and_print_files_body_def split: prod.splits sum.splits)
  ultimately show ?thesis using s by blast
qed

theorem stem_of_match_witness:
  "recognized ''.txt'' \<and>
   fst (get_files_by_extension Until_3_11 (Path [''root''] (Some example_root)) ''.txt'' 0) =
     Inr [Path [''root'', ''photos.txt''] (Some (Dir None [])),
          Path [''root'', ''.txt''] (Some File)] \<and>
   name (Path [''root'', ''photos.txt''] (Some (Dir None []))) \<noteq> ''.txt'' \<and>
   name (Path [''root'', ''photos.txt''] (Some (Dir None []))) =
     stem (Path [''root'', ''photos.txt''] (Some (Dir None []))) @ ''.txt'' \<and>
   stem (Path [''root'', ''photos.txt''] (Some (Dir None []))) = ''photos''"
proof -
  let ?P = "Path [''root'', ''photos.txt''] (Some (Dir None []))"
  have h: "recognized ''.txt''" by code_simp
  have z: "fst (get_files_by_extension Until_3_11 (Path [''root''] (Some example_root)) ''.txt'' 0) =
     Inr [?P, Path [''root'', ''.txt''] (Some File)]"
    by code_simp
  have n: "name ?P \<noteq> ''.txt''" by code_simp
  have s: "stem ?P = ''photos''" by code_simp
  have m: "?P \<in> set [?P, Path [''root'', ''.txt''] (Some File)]" by simp
  have "name ?P = stem ?P @ ''.txt''"
    using stem_of_match [OF h z m] n by blast
  then show ?thesis using h z n s by blast
qed

text \<open>
  C7 as stated fails for a file named \<open>.txt\<close>: it matches \<open>*.txt\<close>, and its stem is the
  whole name, not the name without the extension.
\<close>

theorem stem_counterexample:
  "recognized ''.txt'' \<and>
   fst (get_files_by_extension Until_3_11
          (Path [''root''] (Some (Dir None [(''.txt'', File)]))) ''.txt'' 0) =
     Inr [Path [''root'', ''.txt''] (Some File)] \<and>
   name (Path [''root'', ''.txt''] (Some File)) = ''.txt'' \<and>
   stem (Path [''root'', ''.txt''] (Some File)) = ''.txt'' \<and>
   stem (Path [''root'', ''.txt''] (Some File)) @ ''.txt'' \<noteq>
     name (Path [''root'', ''.txt''] (Some File))"
  by code_simp

section \<open>Validation\<close>





lemma exists_cases:
  obtains (raises) e where "exists P = Inl e" | (returns) b where "exists P = Inr b"
  by (cases "exists P") auto







section \<open>Listing failures\<close>

text \<open>
  C3 at inputs where it fails, with \<open>glob\<close> as up to CPython 3.11. A root whose listing
  raises an \<open>OSError\<close> other than \<open>PermissionError\<close>, scanned with depth 0: the exception
  reaches the caller. A root with a subdirectory \<open>ok\<close> holding \<open>match.txt\<close> and a
  subdirectory \<open>denied\<close> whose listing raises such an error, scanned with depth -1: the
  exception reaches the caller and nothing is reported, the match under \<open>ok\<close> included.
  The same tree scanned with depth 2 returns that match.
\<close>

theorem listing_error_reaches_caller:
  "raised (process_and_print_files Until_3_11 (Path [''root''] (Some denied_root)) ''.txt'' 0) =
     Some OtherOSError \<and>
   process_and_print_files Until_3_11 (Path [''root''] (Some mixed_root)) ''.txt'' (- 1) =
     \<lparr>printed = [], fs_calls = [Exists [''root''], Is_dir [''root''], Rglob [''root''] ''*.txt''],
      raised = Some OtherOSError\<rparr> \<and>
   fst (get_files_by_extension Until_3_11 (Path [''root''] (Some mixed_root)) ''.txt'' 2) =
     Inr [Path [''root'', ''ok'', ''match.txt''] (Some File)]"
  by code_simp

end
